theory Spec2Isabelle
  imports Complex_Main "HOL-Library.Multiset" "HOL-Library.Sublist"
begin

section \<open>JavaScript numbers\<close>

text \<open>
  A JavaScript number is an IEEE 754 binary64 value.  \<open>Fin q\<close> is the finite number whose exact
  value is the rational \<open>q\<close> (\<open>Fin 0\<close> is \<open>+0\<close>), \<open>NegZero\<close> is \<open>-0\<close>.  Every arithmetic operation
  computes the exact result and rounds it with \<open>fl\<close>: to the nearest binary64 value, ties to
  the even significand, overflow to an infinity, underflow to a zero that keeps the sign.
  A number parsed from JSON is a binary64 value; the operations are defined on every \<open>Fin q\<close>,
  and nothing below needs the cells of a table to be binary64 values.
\<close>

datatype jsnum = NaN | PInf | NInf | NegZero | Fin rat

function bitlen :: "int \<Rightarrow> int" where
  "bitlen n = (if n \<le> 0 then 0 else 1 + bitlen (n div 2))"
  by pat_completeness auto
termination
  by (relation "measure nat") auto

declare bitlen.simps [simp del]

text \<open>
  \<open>bitlen n\<close> is the number of binary digits of \<open>n\<close>, and \<open>ilog2 a\<close> the binary exponent of a
  positive \<open>a\<close>, the greatest \<open>k\<close> with \<open>2 powi k \<le> a\<close>.
\<close>

definition ilog2 :: "rat \<Rightarrow> int" where
  "ilog2 a = (if 1 \<le> a then bitlen \<lfloor>a\<rfloor> - 1 else - bitlen (\<lceil>1 / a\<rceil> - 1))"

definition round_even :: "rat \<Rightarrow> int" where
  "round_even x = (let f = \<lfloor>x\<rfloor>; d = x - of_int f in
     if d < 1 / 2 then f else if 1 / 2 < d then f + 1
     else if even f then f else f + 1)"

text \<open>
  The significand has 53 bits; \<open>emin\<close> is the exponent of the unit in the last place of the
  subnormal numbers.  The largest finite value is \<open>2 ^ 1024 - 2 ^ 971\<close>: a magnitude that rounds
  to \<open>huge\<close> or more is an infinity.
\<close>

definition emin :: int where
  "emin = - 1074"

definition huge :: rat where
  "huge = 2 ^ 1024"

definition fl :: "rat \<Rightarrow> jsnum" where
  "fl q = (if q = 0 then Fin 0 else
     let a = \<bar>q\<bar>;
         e = max (ilog2 a - 52) emin;
         r = of_int (round_even (a / (2 powi e))) * (2 powi e)
     in if huge \<le> r then (if 0 < q then PInf else NInf)
        else if r = 0 then (if 0 < q then Fin 0 else NegZero)
        else Fin (sgn q * r))"

definition is_zero :: "jsnum \<Rightarrow> bool" where
  "is_zero x = (x = Fin 0 \<or> x = NegZero)"

definition is_inf :: "jsnum \<Rightarrow> bool" where
  "is_inf x = (x = PInf \<or> x = NInf)"

text \<open>The sign bit and the exact value of a number that is not \<open>NaN\<close>.\<close>

fun is_neg :: "jsnum \<Rightarrow> bool" where
  "is_neg NInf = True"
| "is_neg NegZero = True"
| "is_neg (Fin q) = (q < 0)"
| "is_neg _ = False"

fun rat_of :: "jsnum \<Rightarrow> rat" where
  "rat_of (Fin q) = q"
| "rat_of _ = 0"

fun fneg :: "jsnum \<Rightarrow> jsnum" where
  "fneg NaN = NaN"
| "fneg PInf = NInf"
| "fneg NInf = PInf"
| "fneg NegZero = Fin 0"
| "fneg (Fin q) = (if q = 0 then NegZero else Fin (- q))"

fun fadd :: "jsnum \<Rightarrow> jsnum \<Rightarrow> jsnum" where
  "fadd NaN _ = NaN"
| "fadd _ NaN = NaN"
| "fadd PInf NInf = NaN"
| "fadd NInf PInf = NaN"
| "fadd PInf _ = PInf"
| "fadd _ PInf = PInf"
| "fadd NInf _ = NInf"
| "fadd _ NInf = NInf"
| "fadd NegZero NegZero = NegZero"
| "fadd NegZero (Fin b) = Fin b"
| "fadd (Fin a) NegZero = Fin a"
| "fadd (Fin a) (Fin b) = fl (a + b)"

definition fsub :: "jsnum \<Rightarrow> jsnum \<Rightarrow> jsnum" where
  "fsub x y = fadd x (fneg y)"

definition fmul :: "jsnum \<Rightarrow> jsnum \<Rightarrow> jsnum" where
  "fmul x y =
     (if x = NaN \<or> y = NaN then NaN
      else if (is_inf x \<and> is_zero y) \<or> (is_zero x \<and> is_inf y) then NaN
      else if is_inf x \<or> is_inf y then (if is_neg x \<noteq> is_neg y then NInf else PInf)
      else if is_zero x \<or> is_zero y then (if is_neg x \<noteq> is_neg y then NegZero else Fin 0)
      else fl (rat_of x * rat_of y))"

definition fdiv :: "jsnum \<Rightarrow> jsnum \<Rightarrow> jsnum" where
  "fdiv x y =
     (if x = NaN \<or> y = NaN then NaN
      else if (is_inf x \<and> is_inf y) \<or> (is_zero x \<and> is_zero y) then NaN
      else if is_inf x \<or> is_zero y then (if is_neg x \<noteq> is_neg y then NInf else PInf)
      else if is_inf y \<or> is_zero x then (if is_neg x \<noteq> is_neg y then NegZero else Fin 0)
      else fl (rat_of x / rat_of y))"

text \<open>
  The comparisons \<open><\<close> and \<open>==\<close> on numbers: false whenever an operand is \<open>NaN\<close>, and the two
  zeros are equal.
\<close>

fun js_lt :: "jsnum \<Rightarrow> jsnum \<Rightarrow> bool" where
  "js_lt NaN _ = False"
| "js_lt _ NaN = False"
| "js_lt PInf _ = False"
| "js_lt _ NInf = False"
| "js_lt _ PInf = True"
| "js_lt NInf _ = True"
| "js_lt x y = (rat_of x < rat_of y)"

definition js_eq :: "jsnum \<Rightarrow> jsnum \<Rightarrow> bool" where
  "js_eq x y = (x \<noteq> NaN \<and> y \<noteq> NaN \<and> \<not> js_lt x y \<and> \<not> js_lt y x)"

definition js_ge :: "jsnum \<Rightarrow> jsnum \<Rightarrow> bool" where
  "js_ge x y = (js_lt y x \<or> js_eq x y)"

text \<open>
  \<open>round1 x\<close> is the source's \<^verbatim>\<open>+(x).toFixed(1)\<close>.  \<^verbatim>\<open>toFixed(1)\<close> prints \<open>NaN\<close> and the
  infinities by name, a magnitude of \<open>10^21\<close> or more as \<^verbatim>\<open>String(x)\<close>, and otherwise the sign
  and \<open>n / 10\<close> with one decimal, \<open>n\<close> the integer nearest to ten times the magnitude (the larger
  one of two); the unary plus reads the string back as a number, \<^verbatim>\<open>"-0.0"\<close> as \<open>-0\<close>.
\<close>

definition round1 :: "jsnum \<Rightarrow> jsnum" where
  "round1 x = (case x of
       NaN \<Rightarrow> NaN | PInf \<Rightarrow> PInf | NInf \<Rightarrow> NInf | NegZero \<Rightarrow> Fin 0
     | Fin q \<Rightarrow>
         if 10 ^ 21 \<le> \<bar>q\<bar> then Fin q
         else let n = \<lfloor>10 * \<bar>q\<bar> + 1 / 2\<rfloor> in
           if n = 0 then (if q < 0 then NegZero else Fin 0)
           else fl (sgn q * of_int n / 10))"

text \<open>
  A number is finite when it is neither \<open>NaN\<close> nor an infinity.  Every finite result of \<open>fl\<close>
  is a multiple of the least subnormal number \<open>2 powi emin\<close>; \<open>grid\<close> says so.
\<close>

fun is_finite :: "jsnum \<Rightarrow> bool" where
  "is_finite (Fin q) = True"
| "is_finite NegZero = True"
| "is_finite _ = False"

definition grid :: "rat \<Rightarrow> bool" where
  "grid r = (of_int \<lfloor>r / 2 powi emin\<rfloor> = r / 2 powi emin)"

fun grid_num :: "jsnum \<Rightarrow> bool" where
  "grid_num (Fin q) = grid q"
| "grid_num _ = True"

section \<open>JavaScript values\<close>

text \<open>
  The cells of a row are JSON scalars; \<open>Undefined\<close> is what reading a missing index or property
  gives.
\<close>

datatype jsval = Undefined | Null | Bool bool | Num jsnum | Str string

text \<open>
  \<open>ToNumber\<close> of a string is the engine's \<open>StringToNumber\<close>, the parameter \<open>S\<close>: no property
  below depends on how a string is read as a number.
\<close>

fun ToNumber :: "(string \<Rightarrow> jsnum) \<Rightarrow> jsval \<Rightarrow> jsnum" where
  "ToNumber S Undefined = NaN"
| "ToNumber S Null = Fin 0"
| "ToNumber S (Bool b) = (if b then Fin 1 else Fin 0)"
| "ToNumber S (Num n) = n"
| "ToNumber S (Str s) = S s"

fun ToBoolean :: "jsval \<Rightarrow> bool" where
  "ToBoolean Undefined = False"
| "ToBoolean Null = False"
| "ToBoolean (Bool b) = b"
| "ToBoolean (Num n) = (n \<noteq> NaN \<and> \<not> is_zero n)"
| "ToBoolean (Str s) = (s \<noteq> [])"

text \<open>The operator \<^verbatim>\<open>??\<close>.\<close>

fun nullish :: "jsval \<Rightarrow> jsval \<Rightarrow> jsval" where
  "nullish Undefined d = d"
| "nullish Null d = d"
| "nullish v d = v"

section \<open>The season label\<close>

text \<open>The two readings of the clock that \<^verbatim>\<open>getNBASeason\<close> takes from \<^verbatim>\<open>new Date()\<close>.\<close>

record date =
  getFullYear :: int
  getMonth :: int

text \<open>The operator \<^verbatim>\<open>%\<close> on integers: the result has the sign of the dividend.\<close>

definition js_rem :: "int \<Rightarrow> int \<Rightarrow> int" where
  "js_rem a b = sgn a * (\<bar>a\<bar> mod \<bar>b\<bar>)"

fun nat_str :: "nat \<Rightarrow> string" where
  "nat_str n = (if n < 10 then [''0123456789'' ! n]
                else nat_str (n div 10) @ [''0123456789'' ! (n mod 10)])"

declare nat_str.simps [simp del]

text \<open>The string of an integer number (of a magnitude below \<open>10^21\<close>, as every year is).\<close>

definition int_str :: "int \<Rightarrow> string" where
  "int_str i = (if i < 0 then CHR ''-'' # nat_str (nat (- i)) else nat_str (nat i))"

definition padStart :: "nat \<Rightarrow> char \<Rightarrow> string \<Rightarrow> string" where
  "padStart n c s = replicate (n - length s) c @ s"

definition getNBASeason :: "date \<Rightarrow> string" where
  "getNBASeason now =
     (let year = getFullYear now;
          month = getMonth now;
          startYear = (if 9 \<le> month then year else year - 1);
          endYear = js_rem (startYear + 1) 100
      in int_str startYear @ ''-'' @ padStart 2 (CHR ''0'') (int_str endYear))"

section \<open>Player records\<close>

record player =
  name :: jsval
  team :: jsval
  gp :: jsval
  pts :: jsval
  reb :: jsval
  ast :: jsval
  stl :: jsval
  blk :: jsval
  tov :: jsval
  fgm :: jsval
  fga :: jsval
  fg3m :: jsval
  fg3a :: jsval
  ftm :: jsval
  fta :: jsval
  fgPct :: jsnum
  ftPct :: jsnum
  tpPct :: jsnum
  ppg :: jsnum
  rpg :: jsnum
  apg :: jsnum
  spg :: jsnum
  bpg :: jsnum
  topg :: jsnum
  ept :: jsnum

definition calcEPT :: "(string \<Rightarrow> jsnum) \<Rightarrow> jsval \<Rightarrow> jsval \<Rightarrow> jsval \<Rightarrow> jsval \<Rightarrow> jsval \<Rightarrow> jsval \<Rightarrow> jsnum" where
  "calcEPT S pts' reb' ast' stl' blk' tov' =
     round1 (fsub (fadd (fadd (fadd (fadd
       (fmul (ToNumber S pts') (Fin (3 / 2)))
       (fmul (ToNumber S reb') (Fin (3 / 2))))
       (fmul (ToNumber S ast') (Fin (3 / 2))))
       (fmul (ToNumber S stl') (Fin 3)))
       (fmul (ToNumber S blk') (Fin 3)))
       (fmul (ToNumber S tov') (Fin (3 / 2))))"

subsection \<open>The header index\<close>

text \<open>
  \<^verbatim>\<open>idx\<close> is a plain object used as a dictionary.  The assignment \<^verbatim>\<open>idx[h] = i\<close> creates or
  overwrites the own property \<open>h\<close>, except for \<^verbatim>\<open>"__proto__"\<close>: that name is the accessor
  inherited from \<^verbatim>\<open>Object.prototype\<close>, whose setter ignores a number.  The object is read at
  the eighteen column names of \<open>project\<close> only, none of which is inherited, so a lookup is the
  lookup of an own property.
\<close>

definition assign :: "(string \<rightharpoonup> nat) \<Rightarrow> string \<Rightarrow> nat \<Rightarrow> (string \<rightharpoonup> nat)" where
  "assign idx h i = (if h = ''__proto__'' then idx else idx(h \<mapsto> i))"

definition header_index :: "string list \<Rightarrow> (string \<rightharpoonup> nat)" where
  "header_index hs = fold (\<lambda>(i, h) idx. assign idx h i) (enumerate 0 hs) Map.empty"

text \<open>
  \<^verbatim>\<open>r[idx[k]]\<close>: \<^verbatim>\<open>r[undefined]\<close> and an index past the end of the row are \<^verbatim>\<open>undefined\<close>.
\<close>

definition cell :: "jsval list \<Rightarrow> (string \<rightharpoonup> nat) \<Rightarrow> string \<Rightarrow> jsval" where
  "cell r idx k = (case idx k of None \<Rightarrow> Undefined
                   | Some i \<Rightarrow> if i < length r then r ! i else Undefined)"

subsection \<open>The projection of a row\<close>

text \<open>\<^verbatim>\<open>r[idx[k]] ?? 0\<close>\<close>

definition stat :: "jsval list \<Rightarrow> (string \<rightharpoonup> nat) \<Rightarrow> string \<Rightarrow> jsval" where
  "stat r idx k = nullish (cell r idx k) (Num (Fin 0))"

text \<open>\<^verbatim>\<open>r[idx[k]] ?? (att ? made / att : 0)\<close>\<close>

definition pct :: "(string \<Rightarrow> jsnum) \<Rightarrow> jsval list \<Rightarrow> (string \<rightharpoonup> nat) \<Rightarrow> string \<Rightarrow> jsval \<Rightarrow> jsval \<Rightarrow> jsval" where
  "pct S r idx k made att =
     nullish (cell r idx k)
       (if ToBoolean att then Num (fdiv (ToNumber S made) (ToNumber S att)) else Num (Fin 0))"

text \<open>\<^verbatim>\<open>+(p * 100).toFixed(1)\<close>\<close>

definition percent :: "(string \<Rightarrow> jsnum) \<Rightarrow> jsval \<Rightarrow> jsnum" where
  "percent S p = round1 (fmul (ToNumber S p) (Fin 100))"

text \<open>\<^verbatim>\<open>gp ? +(x / gp).toFixed(1) : 0\<close>\<close>

definition per_game :: "(string \<Rightarrow> jsnum) \<Rightarrow> jsval \<Rightarrow> jsval \<Rightarrow> jsnum" where
  "per_game S gp' x =
     (if ToBoolean gp' then round1 (fdiv (ToNumber S x) (ToNumber S gp')) else Fin 0)"

text \<open>The callback of \<^verbatim>\<open>rows.map\<close>.\<close>

definition project :: "(string \<Rightarrow> jsnum) \<Rightarrow> (string \<rightharpoonup> nat) \<Rightarrow> jsval list \<Rightarrow> player" where
  "project S idx r =
     (let gp' = stat r idx ''GP'';
          pts' = stat r idx ''PTS'';
          reb' = stat r idx ''REB'';
          ast' = stat r idx ''AST'';
          stl' = stat r idx ''STL'';
          blk' = stat r idx ''BLK'';
          tov' = stat r idx ''TOV'';
          fgm' = stat r idx ''FGM'';
          fga' = stat r idx ''FGA'';
          fg3m' = stat r idx ''FG3M'';
          fg3a' = stat r idx ''FG3A'';
          ftm' = stat r idx ''FTM'';
          fta' = stat r idx ''FTA'';
          fgPct' = pct S r idx ''FG_PCT'' fgm' fga';
          ftPct' = pct S r idx ''FT_PCT'' ftm' fta';
          tpPct' = pct S r idx ''FG3_PCT'' fg3m' fg3a'
      in \<lparr> name = cell r idx ''PLAYER'',
           team = cell r idx ''TEAM'',
           gp = gp', pts = pts', reb = reb', ast = ast', stl = stl', blk = blk', tov = tov',
           fgm = fgm', fga = fga', fg3m = fg3m', fg3a = fg3a', ftm = ftm', fta = fta',
           fgPct = percent S fgPct',
           ftPct = percent S ftPct',
           tpPct = percent S tpPct',
           ppg = per_game S gp' pts',
           rpg = per_game S gp' reb',
           apg = per_game S gp' ast',
           spg = per_game S gp' stl',
           bpg = per_game S gp' blk',
           topg = per_game S gp' tov',
           ept = calcEPT S pts' reb' ast' stl' blk' tov' \<rparr>)"

section \<open>Sorting\<close>

text \<open>The comparator \<^verbatim>\<open>(a, b) => b.ept - a.ept\<close>.\<close>

definition compare_ept :: "player \<Rightarrow> player \<Rightarrow> jsnum" where
  "compare_ept a b = fsub (ept b) (ept a)"

text \<open>
  \<^verbatim>\<open>Array.prototype.sort\<close> compares through \<open>SortCompare\<close>, which reads a \<open>NaN\<close> returned by
  the comparator as \<open>+0\<close>.  ECMAScript fixes the result only when \<open>SortCompare\<close> is a
  consistent comparator for the elements: its signs make \<open>=\<close> an equivalence and \<open><\<close>, \<open>>\<close>
  transitive.  The result is then the stable sorted arrangement, which insertion from the
  right computes.
\<close>

definition SortCompare :: "('a \<Rightarrow> 'a \<Rightarrow> jsnum) \<Rightarrow> 'a \<Rightarrow> 'a \<Rightarrow> jsnum" where
  "SortCompare comparefn x y = (let v = comparefn x y in if v = NaN then Fin 0 else v)"

fun insort_cmp :: "('a \<Rightarrow> 'a \<Rightarrow> jsnum) \<Rightarrow> 'a \<Rightarrow> 'a list \<Rightarrow> 'a list" where
  "insort_cmp c x [] = [x]"
| "insort_cmp c x (y # ys) =
     (if js_lt (Fin 0) (SortCompare c x y) then y # insort_cmp c x ys else x # y # ys)"

definition stable_sort :: "('a \<Rightarrow> 'a \<Rightarrow> jsnum) \<Rightarrow> 'a list \<Rightarrow> 'a list" where
  "stable_sort c xs = foldr (insort_cmp c) xs []"

definition consistent_comparator :: "('a \<Rightarrow> 'a \<Rightarrow> jsnum) \<Rightarrow> 'a list \<Rightarrow> bool" where
  "consistent_comparator c xs =
     (\<forall>a \<in> set xs. \<forall>b \<in> set xs. \<forall>d \<in> set xs.
        c a b \<noteq> NaN \<and>
        is_zero (c a a) \<and>
        (is_zero (c a b) \<longrightarrow> is_zero (c b a)) \<and>
        (is_zero (c a b) \<and> is_zero (c b d) \<longrightarrow> is_zero (c a d)) \<and>
        (js_lt (c a b) (Fin 0) \<and> js_lt (c b d) (Fin 0) \<longrightarrow> js_lt (c a d) (Fin 0)) \<and>
        (js_lt (Fin 0) (c a b) \<and> js_lt (Fin 0) (c b d) \<longrightarrow> js_lt (Fin 0) (c a d)))"

text \<open>
  What ECMAScript requires of an engine's \<^verbatim>\<open>sort\<close>: the result is an arrangement of the
  elements, and when \<open>SortCompare\<close> is consistent it is the stable sorted one.  Otherwise the
  order is left to the engine.
\<close>

definition es_sort :: "(('a \<Rightarrow> 'a \<Rightarrow> jsnum) \<Rightarrow> 'a list \<Rightarrow> 'a list) \<Rightarrow> bool" where
  "es_sort srt =
     (\<forall>c xs. mset (srt c xs) = mset xs \<and>
             (consistent_comparator (SortCompare c) xs \<longrightarrow> srt c xs = stable_sort c xs))"

text \<open>The engine that runs the program: how it reads strings as numbers, and how it sorts.\<close>

record engine =
  StringToNumber :: "string \<Rightarrow> jsnum"
  array_sort :: "(player \<Rightarrow> player \<Rightarrow> jsnum) \<Rightarrow> player list \<Rightarrow> player list"

section \<open>The normalizer\<close>

text \<open>
  The fetched payload: \<^verbatim>\<open>data.resultSet\<close> with its \<^verbatim>\<open>headers\<close> and \<^verbatim>\<open>rowSet\<close>, each of which
  may be absent.  Headers are strings and rows are arrays of scalars.
\<close>

record result_set =
  headers :: "string list option"
  rowSet :: "jsval list list option"

record payload =
  resultSet :: "result_set option"

record ranked =
  players :: "player list"
  season :: string
  updatedAt :: string

text \<open>
  The errors of a run.  Reading a property of \<^verbatim>\<open>undefined\<close> or \<^verbatim>\<open>null\<close> and calling
  \<^verbatim>\<open>forEach\<close> or \<^verbatim>\<open>map\<close> on a value that has no such method throw a \<^verbatim>\<open>TypeError\<close>;
  \<^verbatim>\<open>fetchNBA\<close> rejects with an \<^verbatim>\<open>Error\<close> that carries a message.  The source defines no
  error class of its own.
\<close>

datatype error = Error string | TypeError

text \<open>
  \<^verbatim>\<open>getSeasonStats\<close> after the fetch: \<open>now\<close> is the clock read by \<^verbatim>\<open>getNBASeason\<close>, \<open>stamp\<close>
  the ISO string of the clock read for \<^verbatim>\<open>updatedAt\<close>, \<open>data\<close> the fetched payload.
\<close>

definition getSeasonStats :: "engine \<Rightarrow> date \<Rightarrow> string \<Rightarrow> payload \<Rightarrow> error + ranked" where
  "getSeasonStats E now stamp data =
     (let season' = getNBASeason now in
      case resultSet data of
        None \<Rightarrow> Inl TypeError
      | Some rs \<Rightarrow>
          (case headers rs of
             None \<Rightarrow> Inl TypeError
           | Some hs \<Rightarrow>
               let idx = header_index hs in
               (case rowSet rs of
                  None \<Rightarrow> Inl TypeError
                | Some rows \<Rightarrow>
                    let ps = map (project (StringToNumber E) idx) rows;
                        sorted = array_sort E compare_ept ps
                    in Inr \<lparr> players = take 25 sorted, season = season', updatedAt = stamp \<rparr>)))"

subsection \<open>Responses with null rows\<close>







text \<open>A record whose composite score is a number (and, as every computed score, on the grid).\<close>

definition good :: "player \<Rightarrow> bool" where
  "good p = (ept p \<noteq> NaN \<and> grid_num (ept p))"

section \<open>Concrete tables\<close>

text \<open>The table of the specification's worked example.\<close>

definition spec_headers :: "string list" where
  "spec_headers = [''PLAYER'', ''TEAM'', ''GP'', ''PTS'', ''REB'', ''AST'', ''STL'', ''BLK'', ''TOV'']"

definition spec_row :: "jsval list" where
  "spec_row = [Str ''A'', Str ''X'', Num (Fin 2), Num (Fin 20), Num (Fin 10), Num (Fin 6),
               Num (Fin 4), Num (Fin 2), Num (Fin 4)]"

definition idle_row :: "jsval list" where
  "idle_row = [Str ''B'', Str ''Y'', Num (Fin 0), Num (Fin 7), Num (Fin 3), Num (Fin 1),
               Num (Fin 0), Num (Fin 0), Num (Fin 2)]"

definition bench_row :: "jsval list" where
  "bench_row = [Str ''C'', Str ''Z'', Num (Fin 5), Num (Fin 20), Num (Fin 10), Num (Fin 6),
               Num (Fin 4), Num (Fin 2), Num (Fin 4)]"

text \<open>
  Rows whose rates do not end after one decimal: twenty games with the totals \<open>3\<close>, \<open>5\<close>, \<open>7\<close>,
  \<open>19\<close>, \<open>1\<close> and \<open>2\<close>, and a season of \<open>76\<close> games.  In the wide row the points are
  \<open>2 ^ 54\<close>, where the order of the additions shows in the sum.
\<close>

definition twenty_row :: "jsval list" where
  "twenty_row = [Str ''D'', Str ''W'', Num (Fin 20), Num (Fin 3), Num (Fin 5), Num (Fin 7),
                 Num (Fin 19), Num (Fin 1), Num (Fin 2)]"

definition starter_row :: "jsval list" where
  "starter_row = [Str ''E'', Str ''V'', Num (Fin 76), Num (Fin 2484), Num (Fin 961),
                  Num (Fin 445), Num (Fin 112), Num (Fin 62), Num (Fin 256)]"

definition wide_row :: "jsval list" where
  "wide_row = [Str ''F'', Str ''U'', Num (Fin 1), Num (Fin (2 ^ 54)), Num (Fin 1), Num (Fin 1),
               Num (Fin 0), Num (Fin 0), Num (Fin 0)]"

text \<open>A table with an explicit field-goal percentage column.\<close>

definition shot_headers :: "string list" where
  "shot_headers = [''FGM'', ''FGA'', ''FG_PCT'']"

text \<open>
  Tables with the columns \<open>PLAYER\<close>, \<open>PTS\<close> and \<open>TOV\<close>.  A row with \<open>q\<close> points and no turnovers
  has the score \<open>round1 (q * 1.5)\<close>, a row with \<open>q\<close> turnovers and no points the score
  \<open>round1 (- (q * 1.5))\<close>.  In an overflow row the points and the turnovers are
  \<open>3 * 2 ^ 1022\<close> (the JSON number \<open>1.348269851146737e+308\<close>): both products with \<open>1.5\<close> overflow
  to \<open>Infinity\<close>, and their difference is \<open>NaN\<close>.
\<close>

definition short_headers :: "string list" where
  "short_headers = [''PLAYER'', ''PTS'', ''TOV'']"

definition points_row :: "string \<Rightarrow> rat \<Rightarrow> jsval list" where
  "points_row n q = [Str n, Num (Fin q), Num (Fin 0)]"

definition turnover_row :: "string \<Rightarrow> rat \<Rightarrow> jsval list" where
  "turnover_row n q = [Str n, Num (Fin 0), Num (Fin q)]"

definition overflow_row :: "string \<Rightarrow> jsval list" where
  "overflow_row n = [Str n, Num (Fin (3 * 2 ^ 1022)), Num (Fin (3 * 2 ^ 1022))]"

definition table :: "string list \<Rightarrow> jsval list list \<Rightarrow> payload" where
  "table hs rows = \<lparr>resultSet = Some \<lparr>headers = Some hs, rowSet = Some rows\<rparr>\<rparr>"

definition nan_rows :: "jsval list list" where
  "nan_rows = [overflow_row ''A'', points_row ''B'' 1]"

definition tie_rows :: "jsval list list" where
  "tie_rows = [points_row ''A'' 4, points_row ''B'' 6, points_row ''C'' 4]"

definition unstable_rows :: "jsval list list" where
  "unstable_rows = [overflow_row ''A'', overflow_row ''B'', points_row ''C'' 2, overflow_row ''D'',
                    points_row ''E'' 4, points_row ''F'' 6, points_row ''G'' 4]"

text \<open>A reading of the clock, and a time stamp.\<close>

definition sample_clock :: date where
  "sample_clock = \<lparr>getFullYear = 2025, getMonth = 10\<rparr>"

definition sample_stamp :: string where
  "sample_stamp = ''2025-11-03T12:00:00.000Z''"

section \<open>Notions of the specification\<close>

text \<open>
  The label of the season that starts in year \<open>Y\<close>: \<open>Y\<close>, a hyphen, and \<open>(Y + 1) mod 100\<close>
  written with two digits.
\<close>

definition two_digits :: "nat \<Rightarrow> string" where
  "two_digits n = [''0123456789'' ! (n div 10), ''0123456789'' ! (n mod 10)]"

definition season_label :: "int \<Rightarrow> string" where
  "season_label Y = int_str Y @ ''-'' @ two_digits (nat ((Y + 1) mod 100))"

text \<open>
  Rounded to one decimal.  \<open>nearest_tenth a n\<close> says that \<open>n / 10\<close> is the tenth nearest to the
  magnitude \<open>a\<close>, the upper one when \<open>a\<close> lies midway between two tenths.  A number \<open>y\<close> is the
  number \<open>x\<close> rounded to one decimal when it is the binary64 number for that tenth with the
  sign of \<open>x\<close>, which is off the tenth by at most the \<open>2 ^ 53\<close>-th part of it; a tenth of \<open>0\<close>
  gives the zero with the sign of \<open>x\<close>.  A magnitude from \<open>10 ^ 21\<close> on, an infinity and \<open>NaN\<close>
  are kept as they are, and \<open>-0\<close> gives \<open>0\<close>.
\<close>

definition nearest_tenth :: "rat \<Rightarrow> int \<Rightarrow> bool" where
  "nearest_tenth a n = (10 * a - 1 / 2 < of_int n \<and> of_int n \<le> 10 * a + 1 / 2)"

definition rounded_1_decimal :: "jsnum \<Rightarrow> jsnum \<Rightarrow> bool" where
  "rounded_1_decimal x y =
     (case x of
        Fin q \<Rightarrow>
          if \<bar>q\<bar> < 10 ^ 21 then
            (\<exists>n. nearest_tenth \<bar>q\<bar> n \<and>
               (if n = 0 then y = (if q < 0 then NegZero else Fin 0)
                else y = fl (sgn q * of_int n / 10) \<and>
                     (\<exists>r. y = Fin r \<and>
                          \<bar>r - sgn q * of_int n / 10\<bar> \<le> of_int n / 10 / 2 ^ 53)))
          else y = x
      | NegZero \<Rightarrow> y = Fin 0
      | _ \<Rightarrow> y = x)"



section \<open>The sort of V8 on short arrays\<close>

text \<open>
  When \<open>SortCompare\<close> is not consistent the order is the engine's.  V8 (the engine of
  Node.js) sorts an array of fewer than 64 elements in one run: it takes the longest
  initial run (reversing it when strictly descending) and inserts each later element by
  binary search, comparing the pivot with the middle element.
\<close>

function v8_bsearch :: "('a \<Rightarrow> 'a \<Rightarrow> jsnum) \<Rightarrow> 'a \<Rightarrow> 'a list \<Rightarrow> nat \<Rightarrow> nat \<Rightarrow> nat" where
  "v8_bsearch c pivot xs left right =
     (if left < right then
        let mid = left + (right - left) div 2;
            order = SortCompare c pivot (xs ! mid)
        in if js_lt order (Fin 0) then v8_bsearch c pivot xs left mid
           else v8_bsearch c pivot xs (mid + 1) right
      else left)"
  by pat_completeness auto
termination
  by (relation "measure (\<lambda>(c, pivot, xs, left, right). right - left)") auto

declare v8_bsearch.simps [simp del]

definition v8_insert :: "('a \<Rightarrow> 'a \<Rightarrow> jsnum) \<Rightarrow> 'a \<Rightarrow> 'a list \<Rightarrow> 'a list" where
  "v8_insert c pivot xs = (let p = v8_bsearch c pivot xs 0 (length xs)
                           in take p xs @ pivot # drop p xs)"

fun v8_run :: "('a \<Rightarrow> 'a \<Rightarrow> jsnum) \<Rightarrow> bool \<Rightarrow> 'a \<Rightarrow> 'a list \<Rightarrow> nat" where
  "v8_run c descending previous [] = 0"
| "v8_run c descending previous (current # xs) =
     (if js_lt (SortCompare c current previous) (Fin 0) = descending
      then Suc (v8_run c descending current xs) else 0)"

fun v8_sort :: "('a \<Rightarrow> 'a \<Rightarrow> jsnum) \<Rightarrow> 'a list \<Rightarrow> 'a list" where
  "v8_sort c (low # high # xs) =
     (let descending = js_lt (SortCompare c high low) (Fin 0);
          n = 2 + v8_run c descending high xs;
          run = take n (low # high # xs);
          run' = (if descending then rev run else run)
      in fold (v8_insert c) (drop n (low # high # xs)) run')"
| "v8_sort c xs = xs"

text \<open>
  A consistent comparator orders the elements as a key does: \<open>keyed c k A\<close> says that on \<open>A\<close>
  the signs of \<open>SortCompare c\<close> are the order of the keys \<open>k\<close>.  The rank of an element, the
  number of elements strictly before it, is such a key.
\<close>

definition keyed :: "('a \<Rightarrow> 'a \<Rightarrow> jsnum) \<Rightarrow> ('a \<Rightarrow> nat) \<Rightarrow> 'a set \<Rightarrow> bool" where
  "keyed c k A = (\<forall>a \<in> A. \<forall>b \<in> A.
     (js_lt (SortCompare c a b) (Fin 0) \<longleftrightarrow> k a < k b) \<and>
     (js_lt (Fin 0) (SortCompare c a b) \<longleftrightarrow> k b < k a))"

definition rank :: "('a \<Rightarrow> 'a \<Rightarrow> jsnum) \<Rightarrow> 'a list \<Rightarrow> 'a \<Rightarrow> nat" where
  "rank c xs a = card {b \<in> set xs. js_lt (SortCompare c b a) (Fin 0)}"

text \<open>
  Two engines: one whose sort is the stable sort throughout, and one that sorts as V8 does on
  short arrays.  Both meet the specification of \<^verbatim>\<open>sort\<close>, as is proved below.  No cell of the
  tables above is a string in a numeric column, so how they read strings as numbers is
  immaterial.
\<close>

definition reference_engine :: engine where
  "reference_engine = \<lparr>StringToNumber = (\<lambda>s. NaN), array_sort = stable_sort\<rparr>"

definition v8_engine :: engine where
  "v8_engine = \<lparr>StringToNumber = (\<lambda>s. NaN), array_sort = v8_sort\<rparr>"

text \<open>The projection of a row of the three-column tables.\<close>

definition entry :: "jsval list \<Rightarrow> player" where
  "entry r = project (\<lambda>s. NaN) (header_index short_headers) r"

section \<open>Rounding to binary64\<close>

lemma bitlen_nonneg: "0 \<le> bitlen n"
  by (induction n rule: bitlen.induct) (subst bitlen.simps, simp)

lemma bitlen_upper: "0 \<le> n \<Longrightarrow> n < 2 ^ nat (bitlen n)"
proof (induction n rule: bitlen.induct)
  case (1 n)
  show ?case
  proof (cases "n \<le> 0")
    case True
    with "1.prems" show ?thesis by (subst bitlen.simps) simp
  next
    case False
    then have ih: "n div 2 < 2 ^ nat (bitlen (n div 2))"
      using "1.IH" by simp
    have "bitlen n = 1 + bitlen (n div 2)"
      using False by (subst bitlen.simps) simp
    then have "nat (bitlen n) = Suc (nat (bitlen (n div 2)))"
      using bitlen_nonneg [of "n div 2"] by simp
    moreover have "n < 2 * (n div 2 + 1)" by presburger
    ultimately show ?thesis using ih by simp
  qed
qed

lemma bitlen_1: "bitlen 1 = 1"
  by (simp add: bitlen.simps)

lemma bitlen_lower: "1 \<le> n \<Longrightarrow> 1 \<le> bitlen n \<and> 2 ^ nat (bitlen n - 1) \<le> n"
proof (induction n rule: bitlen.induct)
  case (1 n)
  then have pos: "\<not> n \<le> 0" by simp
  have eq: "bitlen n = 1 + bitlen (n div 2)"
    using pos by (subst bitlen.simps) simp
  show ?case
  proof (cases "n = 1")
    case True
    then show ?thesis by (simp add: bitlen_1)
  next
    case False
    with "1.prems" have "1 \<le> n div 2" by presburger
    then have ih: "1 \<le> bitlen (n div 2)" "2 ^ nat (bitlen (n div 2) - 1) \<le> n div 2"
      using "1.IH" pos by simp_all
    have "nat (bitlen n - 1) = Suc (nat (bitlen (n div 2) - 1))"
      using ih(1) eq by simp
    moreover have "2 * (n div 2) \<le> n" by presburger
    ultimately show ?thesis using ih eq by simp
  qed
qed

lemma ilog2_lower:
  assumes pos: "0 < a"
  shows "2 powi (ilog2 a) \<le> a"
proof (cases "1 \<le> a")
  case True
  then have f: "1 \<le> \<lfloor>a\<rfloor>" by simp
  from bitlen_lower [OF f] have b: "1 \<le> bitlen \<lfloor>a\<rfloor>" "2 ^ nat (bitlen \<lfloor>a\<rfloor> - 1) \<le> \<lfloor>a\<rfloor>"
    by simp_all
  have "(2::rat) powi (bitlen \<lfloor>a\<rfloor> - 1) = 2 ^ nat (bitlen \<lfloor>a\<rfloor> - 1)"
    using b(1) by (simp add: power_int_def)
  also have "\<dots> = of_int (2 ^ nat (bitlen \<lfloor>a\<rfloor> - 1))" by simp
  also have "\<dots> \<le> of_int \<lfloor>a\<rfloor>" using b(2) by (simp only: of_int_le_iff)
  also have "\<dots> \<le> a" by simp
  finally show ?thesis using True by (simp add: ilog2_def)
next
  case False
  define n where "n = \<lceil>1 / a\<rceil> - 1"
  have "a < 1" using False by simp
  then have "1 < 1 / a" using pos by (simp add: field_simps)
  then have n0: "0 \<le> n" unfolding n_def using pos by (simp add: less_ceiling_iff)
  from bitlen_upper [OF n0] have "n + 1 \<le> 2 ^ nat (bitlen n)" by simp
  then have "of_int (n + 1) \<le> (of_int (2 ^ nat (bitlen n)) :: rat)"
    by (simp only: of_int_le_iff)
  moreover have "1 / a \<le> of_int (n + 1)" unfolding n_def by simp
  ultimately have "1 / a \<le> 2 ^ nat (bitlen n)" by simp
  then have "1 / 2 ^ nat (bitlen n) \<le> a"
    using pos by (simp add: field_simps)
  moreover have "(2::rat) powi (- bitlen n) = 1 / 2 ^ nat (bitlen n)"
    using bitlen_nonneg [of n] by (simp add: power_int_def field_simps)
  ultimately show ?thesis using False by (simp add: ilog2_def n_def)
qed

lemma ilog2_upper:
  assumes pos: "0 < a"
  shows "a < 2 powi (ilog2 a + 1)"
proof (cases "1 \<le> a")
  case True
  then have f: "0 \<le> \<lfloor>a\<rfloor>" by simp
  from bitlen_upper [OF f] have "\<lfloor>a\<rfloor> + 1 \<le> 2 ^ nat (bitlen \<lfloor>a\<rfloor>)" by simp
  then have "of_int (\<lfloor>a\<rfloor> + 1) \<le> (of_int (2 ^ nat (bitlen \<lfloor>a\<rfloor>)) :: rat)"
    by (simp only: of_int_le_iff)
  moreover have "a < of_int (\<lfloor>a\<rfloor> + 1)" by linarith
  ultimately have "a < 2 ^ nat (bitlen \<lfloor>a\<rfloor>)" by simp
  moreover have "(2::rat) powi (bitlen \<lfloor>a\<rfloor>) = 2 ^ nat (bitlen \<lfloor>a\<rfloor>)"
    using bitlen_nonneg [of "\<lfloor>a\<rfloor>"] by (simp add: power_int_def)
  ultimately show ?thesis using True by (simp add: ilog2_def)
next
  case False
  define n where "n = \<lceil>1 / a\<rceil> - 1"
  have "a < 1" using False by simp
  then have "1 < 1 / a" using pos by (simp add: field_simps)
  then have n1: "1 \<le> n" unfolding n_def by (simp add: less_ceiling_iff)
  from bitlen_lower [OF n1] have b: "1 \<le> bitlen n" "2 ^ nat (bitlen n - 1) \<le> n" by simp_all
  from b(2) have "(of_int (2 ^ nat (bitlen n - 1)) :: rat) \<le> of_int n"
    by (simp only: of_int_le_iff)
  then have "(2::rat) ^ nat (bitlen n - 1) \<le> of_int n" by simp
  moreover have "of_int n < 1 / a" unfolding n_def by linarith
  ultimately have "2 ^ nat (bitlen n - 1) < 1 / a" by (rule le_less_trans)
  then have "a < 1 / 2 ^ nat (bitlen n - 1)"
    using pos by (simp add: field_simps)
  moreover have "(2::rat) powi (- bitlen n + 1) = 1 / 2 ^ nat (bitlen n - 1)"
    using b(1) by (simp add: power_int_def field_simps)
  ultimately show ?thesis using False by (simp add: ilog2_def n_def)
qed

lemma two_powi_pos [simp]: "(0::rat) < 2 powi e"
  by (rule zero_less_power_int) simp

lemma grid_iff: "grid r \<longleftrightarrow> (\<exists>k::int. r = of_int k * 2 powi emin)"
proof
  assume "grid r"
  then have "of_int \<lfloor>r / 2 powi emin\<rfloor> * 2 powi emin = r / 2 powi emin * 2 powi emin"
    by (simp only: grid_def)
  then have "r = of_int \<lfloor>r / 2 powi emin\<rfloor> * 2 powi emin" by simp
  then show "\<exists>k::int. r = of_int k * 2 powi emin" ..
next
  assume "\<exists>k::int. r = of_int k * 2 powi emin"
  then obtain k :: int where "r = of_int k * 2 powi emin" ..
  then show "grid r" by (simp add: grid_def)
qed

lemma grid_0 [simp]: "grid 0"
  by (simp add: grid_def)

lemma grid_minus: "grid r \<Longrightarrow> grid (- r)"
  unfolding grid_iff by (metis mult_minus_left of_int_minus)

lemma grid_diff: "grid a \<Longrightarrow> grid b \<Longrightarrow> grid (a - b)"
  unfolding grid_iff by (metis left_diff_distrib of_int_diff)

lemma grid_nonzero:
  assumes "grid r" "r \<noteq> 0"
  shows "2 powi emin \<le> \<bar>r\<bar>"
proof -
  from assms(1) obtain k :: int where k: "r = of_int k * 2 powi emin"
    unfolding grid_iff ..
  with assms(2) have "k \<noteq> 0" by auto
  then have "1 \<le> \<bar>k\<bar>" by simp
  then have "(1::rat) \<le> of_int \<bar>k\<bar>" by (simp only: of_int_1_le_iff)
  then have "1 * 2 powi emin \<le> of_int \<bar>k\<bar> * (2::rat) powi emin"
    by (rule mult_right_mono) simp
  then show ?thesis by (simp add: k abs_mult)
qed

lemma round_even_nonneg: "0 \<le> x \<Longrightarrow> 0 \<le> round_even x"
  by (auto simp: round_even_def Let_def)

lemma round_even_ge1: "1 \<le> x \<Longrightarrow> 1 \<le> round_even x"
  by (auto simp: round_even_def Let_def)

text \<open>The scaled magnitude is at least 1 when the magnitude is at least the least subnormal.\<close>

lemma scaled_ge1:
  assumes "2 powi emin \<le> a"
  shows "1 \<le> a / 2 powi (max (ilog2 a - 52) emin)"
proof -
  have pos: "0 < a" using assms by (rule less_le_trans [OF two_powi_pos])
  let ?e = "max (ilog2 a - 52) emin"
  have "(2::rat) powi ?e \<le> a"
  proof (cases "ilog2 a - 52 \<le> emin")
    case True
    then have "?e = emin" by simp
    then show ?thesis using assms by simp
  next
    case False
    then have e: "?e = ilog2 a - 52" by simp
    have "(2::rat) powi (ilog2 a - 52) \<le> 2 powi (ilog2 a)"
      by (rule power_int_increasing) simp_all
    also have "\<dots> \<le> a" by (rule ilog2_lower [OF pos])
    finally show ?thesis using e by simp
  qed
  then show ?thesis by (simp add: field_simps)
qed

lemma fl_not_NaN [simp]: "fl q \<noteq> NaN"
  by (simp add: fl_def Let_def)

lemma fl_shape:
  assumes "q \<noteq> 0"
  obtains m e where "0 \<le> m" "emin \<le> e"
    "2 powi emin \<le> \<bar>q\<bar> \<longrightarrow> 1 \<le> m"
    "fl q = (if huge \<le> of_int m * 2 powi e then (if 0 < q then PInf else NInf)
             else if m = 0 then (if 0 < q then Fin 0 else NegZero)
             else Fin (sgn q * (of_int m * 2 powi e)))"
proof -
  let ?e = "max (ilog2 \<bar>q\<bar> - 52) emin"
  let ?m = "round_even (\<bar>q\<bar> / 2 powi ?e)"
  have "0 \<le> \<bar>q\<bar> / 2 powi ?e" by simp
  then have 1: "0 \<le> ?m" by (rule round_even_nonneg)
  have 2: "emin \<le> ?e" by simp
  have 3: "2 powi emin \<le> \<bar>q\<bar> \<longrightarrow> 1 \<le> ?m"
    by (rule impI, rule round_even_ge1, rule scaled_ge1)
  have 4: "fl q = (if huge \<le> of_int ?m * 2 powi ?e then (if 0 < q then PInf else NInf)
             else if ?m = 0 then (if 0 < q then Fin 0 else NegZero)
             else Fin (sgn q * (of_int ?m * 2 powi ?e)))"
    using assms by (simp add: fl_def Let_def)
  from 1 2 3 4 show ?thesis by (rule that)
qed

lemma fl_pos:
  assumes "0 < q"
  shows "fl q = PInf \<or> fl q = Fin 0 \<or> (\<exists>r. fl q = Fin r \<and> 0 < r)"
proof -
  from assms have "q \<noteq> 0" by simp
  then obtain m e where m: "0 \<le> m"
    and f: "fl q = (if huge \<le> of_int m * 2 powi e then (if 0 < q then PInf else NInf)
             else if m = 0 then (if 0 < q then Fin 0 else NegZero)
             else Fin (sgn q * (of_int m * 2 powi e)))"
    by (rule fl_shape)
  have "m \<noteq> 0 \<Longrightarrow> (0::rat) < of_int m * 2 powi e"
    using m by (simp add: zero_less_mult_iff)
  then show ?thesis using assms f by (auto simp: sgn_if)
qed

lemma fl_neg:
  assumes "q < 0"
  shows "fl q = NInf \<or> fl q = NegZero \<or> (\<exists>r. fl q = Fin r \<and> r < 0)"
proof -
  from assms have "q \<noteq> 0" by simp
  then obtain m e where m: "0 \<le> m"
    and f: "fl q = (if huge \<le> of_int m * 2 powi e then (if 0 < q then PInf else NInf)
             else if m = 0 then (if 0 < q then Fin 0 else NegZero)
             else Fin (sgn q * (of_int m * 2 powi e)))"
    by (rule fl_shape)
  have "m \<noteq> 0 \<Longrightarrow> (0::rat) < of_int m * 2 powi e"
    using m by (simp add: zero_less_mult_iff)
  then show ?thesis using assms f by (auto simp: sgn_if)
qed

lemma fl_not_zero:
  assumes "2 powi emin \<le> \<bar>q\<bar>"
  shows "\<not> is_zero (fl q)"
proof -
  have "0 < \<bar>q\<bar>" using assms by (rule less_le_trans [OF two_powi_pos])
  then have "q \<noteq> 0" by simp
  then obtain m e where m: "2 powi emin \<le> \<bar>q\<bar> \<longrightarrow> 1 \<le> m"
    and f: "fl q = (if huge \<le> of_int m * 2 powi e then (if 0 < q then PInf else NInf)
             else if m = 0 then (if 0 < q then Fin 0 else NegZero)
             else Fin (sgn q * (of_int m * 2 powi e)))"
    by (rule fl_shape)
  from m assms have "1 \<le> m" by simp
  then have "m \<noteq> 0" "(0::rat) < of_int m * 2 powi e"
    by (simp_all add: zero_less_mult_iff)
  then show ?thesis using f \<open>q \<noteq> 0\<close>
    by (auto simp: is_zero_def sgn_if)
qed

lemma fl_grid: "grid_num (fl q)"
proof (cases "q = 0")
  case True
  then show ?thesis by (simp add: fl_def)
next
  case False
  then obtain m e where e: "emin \<le> e"
    and f: "fl q = (if huge \<le> of_int m * 2 powi e then (if 0 < q then PInf else NInf)
             else if m = 0 then (if 0 < q then Fin 0 else NegZero)
             else Fin (sgn q * (of_int m * 2 powi e)))"
    by (rule fl_shape)
  have "(2::rat) powi e = 2 powi (e - emin) * 2 powi emin"
    by (simp add: power_int_add [symmetric])
  also have "\<dots> = of_int (2 ^ nat (e - emin)) * 2 powi emin"
    using e by (simp add: power_int_def)
  finally have "of_int m * (2::rat) powi e = of_int (m * 2 ^ nat (e - emin)) * 2 powi emin"
    by simp
  then have "grid (of_int m * 2 powi e)"
    unfolding grid_iff by (rule exI)
  then have "grid (sgn q * (of_int m * 2 powi e))"
    by (cases "q < 0") (auto simp: sgn_if grid_minus)
  then show ?thesis using f by simp
qed

lemma fl_cmp:
  assumes "grid q"
  shows "(js_lt (Fin 0) (fl q) \<longleftrightarrow> 0 < q) \<and> (js_lt (fl q) (Fin 0) \<longleftrightarrow> q < 0) \<and>
         (is_zero (fl q) \<longleftrightarrow> q = 0)"
proof -
  consider "q = 0" | "0 < q" | "q < 0" by linarith
  then show ?thesis
  proof cases
    case 1
    then show ?thesis by (simp add: fl_def is_zero_def)
  next
    case 2
    then have "\<not> is_zero (fl q)"
      using grid_nonzero [OF assms] by (intro fl_not_zero) simp
    with fl_pos [OF 2] 2 show ?thesis by (auto simp: is_zero_def)
  next
    case 3
    then have "\<not> is_zero (fl q)"
      using grid_nonzero [OF assms] by (intro fl_not_zero) simp
    with fl_neg [OF 3] 3 show ?thesis by (auto simp: is_zero_def)
  qed
qed

lemma grid_fneg: "grid_num x \<Longrightarrow> grid_num (fneg x)"
  by (cases x) (auto simp: grid_minus)

lemma grid_fadd: "grid_num x \<Longrightarrow> grid_num y \<Longrightarrow> grid_num (fadd x y)"
  by (cases x; cases y) (simp_all add: fl_grid)

lemma grid_fsub: "grid_num x \<Longrightarrow> grid_num y \<Longrightarrow> grid_num (fsub x y)"
  by (simp add: fsub_def grid_fadd grid_fneg)

lemma grid_fmul: "grid_num (fmul x y)"
  by (simp add: fmul_def fl_grid)

lemma grid_round1: "grid_num x \<Longrightarrow> grid_num (round1 x)"
  by (cases x) (simp_all add: round1_def Let_def fl_grid)

lemma grid_calcEPT: "grid_num (calcEPT S a b c d e f)"
  unfolding calcEPT_def
  by (intro grid_round1 grid_fsub grid_fadd grid_fmul)

text \<open>The sign of the difference of two finite numbers is the sign of the exact difference.\<close>

lemma fsub_cmp:
  assumes "is_finite x" "is_finite y" "grid_num x" "grid_num y"
  shows "fsub y x \<noteq> NaN"
    and "js_lt (Fin 0) (fsub y x) \<longleftrightarrow> rat_of x < rat_of y"
    and "js_lt (fsub y x) (Fin 0) \<longleftrightarrow> rat_of y < rat_of x"
    and "is_zero (fsub y x) \<longleftrightarrow> rat_of x = rat_of y"
proof -
  have "fsub y x \<noteq> NaN \<and>
    (js_lt (Fin 0) (fsub y x) \<longleftrightarrow> rat_of x < rat_of y) \<and>
    (js_lt (fsub y x) (Fin 0) \<longleftrightarrow> rat_of y < rat_of x) \<and>
    (is_zero (fsub y x) \<longleftrightarrow> rat_of x = rat_of y)"
  proof (cases x)
    case NegZero
    show ?thesis
    proof (cases y)
      case (Fin b)
      then have "grid b" using assms(4) by simp
      from fl_cmp [OF this] show ?thesis
        using NegZero Fin by (simp add: fsub_def)
    qed (use assms NegZero in \<open>simp_all add: fsub_def is_zero_def\<close>)
  next
    case (Fin a)
    then have ga: "grid a" using assms(3) by simp
    show ?thesis
    proof (cases y)
      case NegZero
      then show ?thesis using Fin by (auto simp: fsub_def is_zero_def)
    next
      case b: (Fin b)
      then have "grid b" using assms(4) by simp
      then have "grid (b - a)" using ga by (rule grid_diff)
      from fl_cmp [OF this] show ?thesis
        using Fin b by (auto simp: fsub_def is_zero_def)
    qed (use assms in simp_all)
  qed (use assms in simp_all)
  then show "fsub y x \<noteq> NaN"
    and "js_lt (Fin 0) (fsub y x) \<longleftrightarrow> rat_of x < rat_of y"
    and "js_lt (fsub y x) (Fin 0) \<longleftrightarrow> rat_of y < rat_of x"
    and "is_zero (fsub y x) \<longleftrightarrow> rat_of x = rat_of y"
    by simp_all
qed

subsection \<open>Rounding to one decimal\<close>

text \<open>
  \<open>round1\<close> rounds to one decimal in the sense of \<open>rounded_1_decimal\<close>, which determines its
  result: a number in the normal range is rounded by \<open>fl\<close> with a relative error of at most
  \<open>1 / 2 ^ 53\<close>, and every tenth from \<open>1 / 10\<close> up to \<open>10 ^ 21\<close> lies in that range.
\<close>

lemma nearest_tenth_floor: "nearest_tenth a \<lfloor>10 * a + 1 / 2\<rfloor>"
  unfolding nearest_tenth_def by linarith

lemma nearest_tenth_unique:
  assumes "nearest_tenth a n" "nearest_tenth a m"
  shows "n = m"
proof -
  have "(of_int n :: rat) < of_int m + 1" "(of_int m :: rat) < of_int n + 1"
    using assms unfolding nearest_tenth_def by linarith+
  then have "n < m + 1" "m < n + 1"
    by (metis of_int_1 of_int_add of_int_less_iff)+
  then show ?thesis by simp
qed

lemma round_even_error: "\<bar>of_int (round_even x) - x\<bar> \<le> 1 / 2"
proof -
  define f where "f = \<lfloor>x\<rfloor>"
  have f: "of_int f \<le> x" "x < of_int f + 1" unfolding f_def by linarith+
  have "round_even x = (if x - of_int f < 1 / 2 then f else if 1 / 2 < x - of_int f then f + 1
                        else if even f then f else f + 1)"
    by (simp add: round_even_def Let_def f_def)
  then consider "round_even x = f" "x - of_int f \<le> 1 / 2"
    | "round_even x = f + 1" "1 / 2 \<le> x - of_int f"
    by (auto split: if_splits)
  then show ?thesis
  proof cases
    case 1
    then show ?thesis using f by simp
  next
    case 2
    then show ?thesis using f by simp
  qed
qed

lemma fl_relative_error:
  assumes lo: "2 powi (emin + 52) \<le> \<bar>t\<bar>" and hi: "\<bar>t\<bar> \<le> 2 ^ 1023"
  shows "\<exists>r. fl t = Fin r \<and> \<bar>r - t\<bar> \<le> \<bar>t\<bar> / 2 ^ 53"
proof -
  let ?a = "\<bar>t\<bar>"
  have pos: "0 < ?a" using lo by (rule less_le_trans [OF two_powi_pos])
  then have t0: "t \<noteq> 0" by simp
  have il: "emin + 52 \<le> ilog2 ?a"
  proof (rule ccontr)
    assume "\<not> emin + 52 \<le> ilog2 ?a"
    then have "ilog2 ?a + 1 \<le> emin + 52" by simp
    then have "(2::rat) powi (ilog2 ?a + 1) \<le> 2 powi (emin + 52)"
      by (intro power_int_increasing) simp_all
    with ilog2_upper [OF pos] lo show False by simp
  qed
  define e where "e = ilog2 ?a - 52"
  have e: "max (ilog2 ?a - 52) emin = e" using il by (simp add: e_def)
  define m where "m = round_even (?a / 2 powi e)"
  define r where "r = of_int m * (2::rat) powi e"
  define c where "c = (2::rat) powi 52"
  have c: "0 < c" "(2::rat) ^ 53 = 2 * c" by (simp_all add: c_def)
  have e_le: "(2::rat) powi e * c \<le> ?a"
  proof -
    have "(2::rat) powi e * c = 2 powi (e + 52)"
      unfolding c_def by (subst power_int_add) simp_all
    also have "\<dots> = 2 powi (ilog2 ?a)" by (simp add: e_def)
    also have "\<dots> \<le> ?a" by (rule ilog2_lower [OF pos])
    finally show ?thesis .
  qed
  have err: "\<bar>r - ?a\<bar> \<le> 2 powi e / 2"
  proof -
    have "r - ?a = (of_int m - ?a / 2 powi e) * 2 powi e"
      by (simp add: r_def field_simps)
    then have "\<bar>r - ?a\<bar> = \<bar>of_int m - ?a / 2 powi e\<bar> * 2 powi e"
      by (simp add: abs_mult)
    also have "\<dots> \<le> 1 / 2 * 2 powi e"
    proof (rule mult_right_mono)
      show "\<bar>of_int m - ?a / 2 powi e\<bar> \<le> 1 / 2"
        unfolding m_def by (rule round_even_error)
      show "(0::rat) \<le> 2 powi e" by simp
    qed
    finally show ?thesis by simp
  qed
  have rel: "2 powi e / 2 \<le> ?a / 2 ^ 53"
    unfolding c(2) using e_le c(1) by (simp add: field_simps)
  have bound: "\<bar>r - ?a\<bar> \<le> ?a / 2 ^ 53" using err rel by simp
  have "(2::rat) powi emin \<le> 2 powi (emin + 52)"
    by (intro power_int_increasing) simp_all
  then have "2 powi emin \<le> ?a" using lo by (rule order_trans)
  then have "1 \<le> ?a / 2 powi (max (ilog2 ?a - 52) emin)" by (rule scaled_ge1)
  then have "1 \<le> ?a / 2 powi e" by (simp only: e)
  then have m1: "1 \<le> m" unfolding m_def by (rule round_even_ge1)
  then have rpos: "0 < r" by (simp add: r_def zero_less_mult_iff)
  have "r \<le> ?a + ?a / 2 ^ 53" using bound by linarith
  also have "\<dots> < ?a * 2" using pos by (simp add: field_simps)
  also have "\<dots> \<le> huge" using hi by (simp add: huge_def)
  finally have nh: "\<not> huge \<le> r" by simp
  have f: "fl t = Fin (sgn t * r)"
    using t0 nh rpos by (simp add: fl_def Let_def e m_def [symmetric] r_def [symmetric])
  have "\<bar>sgn t * r - t\<bar> = \<bar>r - ?a\<bar>"
    using t0 by (cases "0 < t") (auto simp: sgn_if abs_if)
  with f bound show ?thesis by simp
qed

lemma rounded_1_decimal_Fin:
  assumes "\<bar>q\<bar> < 10 ^ 21" "nearest_tenth \<bar>q\<bar> n"
    and "n = 0 \<Longrightarrow> y = (if q < 0 then NegZero else Fin 0)"
    and "n \<noteq> 0 \<Longrightarrow> y = fl (sgn q * of_int n / 10)"
    and "n \<noteq> 0 \<Longrightarrow> \<exists>r. y = Fin r \<and> \<bar>r - sgn q * of_int n / 10\<bar> \<le> of_int n / 10 / 2 ^ 53"
  shows "rounded_1_decimal (Fin q) y"
proof -
  have "nearest_tenth \<bar>q\<bar> n \<and>
      (if n = 0 then y = (if q < 0 then NegZero else Fin 0)
       else y = fl (sgn q * of_int n / 10) \<and>
            (\<exists>r. y = Fin r \<and> \<bar>r - sgn q * of_int n / 10\<bar> \<le> of_int n / 10 / 2 ^ 53))"
    using assms(2-5) by (cases "n = 0") simp_all
  then have "\<exists>n. nearest_tenth \<bar>q\<bar> n \<and>
      (if n = 0 then y = (if q < 0 then NegZero else Fin 0)
       else y = fl (sgn q * of_int n / 10) \<and>
            (\<exists>r. y = Fin r \<and> \<bar>r - sgn q * of_int n / 10\<bar> \<le> of_int n / 10 / 2 ^ 53))"
    by (rule exI)
  then show ?thesis
    unfolding rounded_1_decimal_def using assms(1) by (simp only: jsnum.case if_True)
qed

lemma tenth_in_range:
  assumes "\<bar>q\<bar> < 10 ^ 21" "nearest_tenth \<bar>q\<bar> n" "1 \<le> n"
  shows "2 powi (emin + 52) \<le> (of_int n :: rat) / 10" "(of_int n :: rat) / 10 \<le> 2 ^ 1023"
proof -
  have "(2::rat) powi (emin + 52) \<le> 2 powi (- 4)"
    by (intro power_int_increasing) (simp_all add: emin_def)
  also have "\<dots> \<le> 1 / 10" by (simp add: power_int_minus)
  also have "\<dots> \<le> of_int n / 10" using assms(3) by simp
  finally show "2 powi (emin + 52) \<le> (of_int n :: rat) / 10" .
  have "(of_int n :: rat) \<le> 10 * \<bar>q\<bar> + 1 / 2"
    using assms(2) unfolding nearest_tenth_def by simp
  also have "\<dots> \<le> 10 * 10 ^ 21 + 1 / 2" using assms(1) by simp
  finally have "(of_int n :: rat) / 10 \<le> 10 ^ 21 + 1" by simp
  also have "\<dots> \<le> 2 ^ 1023" by simp
  finally show "(of_int n :: rat) / 10 \<le> 2 ^ 1023" .
qed

lemma round1_rounded:
  "rounded_1_decimal x (round1 x)"
proof (cases x)
  case (Fin q)
  show ?thesis
  proof (cases "\<bar>q\<bar> < 10 ^ 21")
    case False
    then show ?thesis by (simp add: Fin rounded_1_decimal_def round1_def)
  next
    case small: True
    define n where "n = \<lfloor>10 * \<bar>q\<bar> + 1 / 2\<rfloor>"
    have nt: "nearest_tenth \<bar>q\<bar> n" unfolding n_def by (rule nearest_tenth_floor)
    have r: "round1 (Fin q) = (if n = 0 then (if q < 0 then NegZero else Fin 0)
                         else fl (sgn q * of_int n / 10))"
      using small by (simp add: round1_def Let_def n_def)
    have n0: "0 \<le> n" unfolding n_def by simp
    have "rounded_1_decimal (Fin q) (round1 (Fin q))"
      using small nt
    proof (rule rounded_1_decimal_Fin)
      assume "n = 0"
      then show "round1 (Fin q) = (if q < 0 then NegZero else Fin 0)" by (simp add: r)
    next
      assume "n \<noteq> 0"
      then show "round1 (Fin q) = fl (sgn q * of_int n / 10)" by (simp add: r)
    next
      assume nz: "n \<noteq> 0"
      with n0 have n1: "1 \<le> n" by simp
      then have q0: "q \<noteq> 0" using nt unfolding nearest_tenth_def by auto
      let ?t = "sgn q * of_int n / 10"
      have at: "\<bar>?t\<bar> = of_int n / 10"
        using n1 q0 by (simp add: abs_mult sgn_if)
      note range = tenth_in_range [OF small nt n1]
      have "\<exists>r. fl ?t = Fin r \<and> \<bar>r - ?t\<bar> \<le> \<bar>?t\<bar> / 2 ^ 53"
        by (rule fl_relative_error) (simp_all only: at range)
      then show "\<exists>r. round1 (Fin q) = Fin r \<and> \<bar>r - ?t\<bar> \<le> of_int n / 10 / 2 ^ 53"
        using nz by (simp only: at r if_False)
    qed
    then show ?thesis by (simp only: Fin)
  qed
qed (simp_all add: rounded_1_decimal_def round1_def)

lemma rounded_1_decimal_unique:
  assumes "rounded_1_decimal x y"
  shows "y = round1 x"
proof (cases x)
  case (Fin q)
  show ?thesis
  proof (cases "\<bar>q\<bar> < 10 ^ 21")
    case False
    then show ?thesis using assms by (simp add: Fin rounded_1_decimal_def round1_def)
  next
    case True
    then obtain n where n: "nearest_tenth \<bar>q\<bar> n"
      and y: "y = (if n = 0 then (if q < 0 then NegZero else Fin 0)
                   else fl (sgn q * of_int n / 10))"
      using assms by (auto simp: Fin rounded_1_decimal_def split: if_splits)
    have "n = \<lfloor>10 * \<bar>q\<bar> + 1 / 2\<rfloor>"
      using n nearest_tenth_floor by (rule nearest_tenth_unique)
    then show ?thesis using True y by (simp add: Fin round1_def Let_def)
  qed
qed (insert assms, simp_all add: rounded_1_decimal_def round1_def)

subsection \<open>Exact sums\<close>

text \<open>
  A half of an integer below \<open>2 ^ 53\<close> in magnitude is a binary64 number, which \<open>fl\<close> and
  \<open>round1\<close> leave as it is.  The weighted sum of six integer totals of magnitude at most
  \<open>2 ^ 40\<close> is therefore computed without any rounding.
\<close>

lemma round_even_of_int: "round_even (of_int m) = m"
  by (simp add: round_even_def Let_def)

lemma fl_half:
  assumes "\<bar>k\<bar> < 2 ^ 53"
  shows "fl (of_int k / 2) = Fin (of_int k / 2)"
proof (cases "k = 0")
  case True
  then show ?thesis by (simp add: fl_def)
next
  case False
  let ?q = "of_int k / 2 :: rat"
  let ?a = "\<bar>?q\<bar>"
  have q0: "?q \<noteq> 0" using False by simp
  have pos: "0 < ?a" using False by simp
  define e where "e = max (ilog2 ?a - 52) emin"
  have "(of_int \<bar>k\<bar> :: rat) < of_int (2 ^ 53)"
    using assms by (simp only: of_int_less_iff)
  then have a52: "?a < 2 powi 52" by simp
  have "ilog2 ?a < 52"
  proof (rule ccontr)
    assume "\<not> ilog2 ?a < 52"
    then have "(2::rat) powi 52 \<le> 2 powi (ilog2 ?a)"
      by (intro power_int_increasing) simp_all
    also have "\<dots> \<le> ?a" by (rule ilog2_lower [OF pos])
    finally show False using a52 by simp
  qed
  then have e1: "e \<le> - 1" by (simp add: e_def emin_def)
  define j where "j = nat (- e - 1)"
  have p: "(2::rat) powi e = 1 / (2 * 2 ^ j)"
  proof -
    have "e = - (int j + 1)" using e1 by (simp add: j_def)
    then have "(2::rat) powi e = 2 powi (- (int j + 1))" by simp
    also have "\<dots> = 1 / 2 powi (int j + 1)" by (simp only: power_int_minus inverse_eq_divide)
    also have "(2::rat) powi (int j + 1) = 2 * 2 ^ j"
      by (simp add: power_int_add)
    finally show ?thesis .
  qed
  have sc: "?a / 2 powi e = of_int (\<bar>k\<bar> * 2 ^ j)"
    by (simp add: p)
  have m: "round_even (?a / 2 powi e) = \<bar>k\<bar> * 2 ^ j"
    unfolding sc by (rule round_even_of_int)
  have r: "of_int (round_even (?a / 2 powi e)) * 2 powi e = ?a"
    unfolding m by (simp add: p)
  have nh: "\<not> huge \<le> ?a"
  proof -
    have "?a < 2 powi 52" by (rule a52)
    also have "\<dots> \<le> huge" by (simp add: huge_def)
    finally show ?thesis by simp
  qed
  have "fl ?q = Fin (sgn ?q * ?a)"
    using q0 nh pos
    by (simp only: fl_def Let_def e_def [symmetric] r if_False) simp
  also have "sgn ?q * ?a = ?q" by (simp add: sgn_if abs_if)
  finally show ?thesis .
qed

lemma fmul_half:
  assumes "\<bar>a\<bar> \<le> 2 ^ 40"
  shows "fmul (Fin (of_int a)) (Fin (3 / 2)) = Fin (of_int (3 * a) / 2)"
    and "fmul (Fin (of_int a)) (Fin 3) = Fin (of_int (6 * a) / 2)"
proof -
  have b: "\<bar>3 * a\<bar> < 2 ^ 53" "\<bar>6 * a\<bar> < 2 ^ 53" using assms by simp_all
  show "fmul (Fin (of_int a)) (Fin (3 / 2)) = Fin (of_int (3 * a) / 2)"
  proof (cases "a = 0")
    case True
    then show ?thesis by (simp add: fmul_def is_zero_def is_inf_def)
  next
    case False
    then have "fmul (Fin (of_int a)) (Fin (3 / 2)) = fl (of_int (3 * a) / 2)"
      by (simp add: fmul_def is_zero_def is_inf_def mult.commute)
    then show ?thesis by (simp only: fl_half [OF b(1)])
  qed
  show "fmul (Fin (of_int a)) (Fin 3) = Fin (of_int (6 * a) / 2)"
  proof (cases "a = 0")
    case True
    then show ?thesis by (simp add: fmul_def is_zero_def is_inf_def)
  next
    case False
    then have "fmul (Fin (of_int a)) (Fin 3) = fl (of_int (6 * a) / 2)"
      by (simp add: fmul_def is_zero_def is_inf_def mult.commute)
    then show ?thesis by (simp only: fl_half [OF b(2)])
  qed
qed

lemma fadd_half:
  assumes "\<bar>k + m\<bar> < 2 ^ 53"
  shows "fadd (Fin (of_int k / 2)) (Fin (of_int m / 2)) = Fin (of_int (k + m) / 2)"
proof -
  have "fadd (Fin (of_int k / 2)) (Fin (of_int m / 2)) = fl (of_int (k + m) / 2)"
    by (simp add: add_divide_distrib)
  then show ?thesis by (simp only: fl_half [OF assms])
qed

lemma fsub_half:
  assumes "\<bar>k - m\<bar> < 2 ^ 53"
  shows "fsub (Fin (of_int k / 2)) (Fin (of_int m / 2)) = Fin (of_int (k - m) / 2)"
proof (cases "m = 0")
  case True
  then show ?thesis by (simp add: fsub_def)
next
  case False
  then have "fsub (Fin (of_int k / 2)) (Fin (of_int m / 2)) = fl (of_int (k - m) / 2)"
    by (simp add: fsub_def diff_divide_distrib)
  then show ?thesis by (simp only: fl_half [OF assms])
qed

lemma round1_half:
  assumes "\<bar>k\<bar> < 2 ^ 53"
  shows "round1 (Fin (of_int k / 2)) = Fin (of_int k / 2)"
proof -
  let ?q = "of_int k / 2 :: rat"
  have "(of_int \<bar>k\<bar> :: rat) < of_int (2 ^ 53)"
    using assms by (simp only: of_int_less_iff)
  then have "\<bar>?q\<bar> < 2 ^ 52" by simp
  also have "(2::rat) ^ 52 \<le> 10 ^ 21" by simp
  finally have small: "\<not> 10 ^ 21 \<le> \<bar>?q\<bar>" by simp
  have "10 * \<bar>?q\<bar> + 1 / 2 = of_int (5 * \<bar>k\<bar>) + 1 / 2" by simp
  then have n: "\<lfloor>10 * \<bar>?q\<bar> + 1 / 2\<rfloor> = 5 * \<bar>k\<bar>"
    by (simp only: floor_eq_iff) simp
  show ?thesis
  proof (cases "k = 0")
    case True
    then show ?thesis using n by (simp add: round1_def)
  next
    case False
    have "sgn ?q * of_int (5 * \<bar>k\<bar>) / 10 = ?q"
      by (simp add: sgn_if abs_if)
    then have "round1 (Fin ?q) = fl ?q"
      using small False by (simp only: round1_def jsnum.case if_False Let_def n) simp
    then show ?thesis by (simp only: fl_half [OF assms])
  qed
qed

lemma exact_score:
  assumes "\<bar>a\<bar> \<le> 2 ^ 40" "\<bar>b\<bar> \<le> 2 ^ 40" "\<bar>c\<bar> \<le> 2 ^ 40"
    and "\<bar>d\<bar> \<le> 2 ^ 40" "\<bar>e\<bar> \<le> 2 ^ 40" "\<bar>f\<bar> \<le> 2 ^ 40"
  shows "round1 (fsub (fadd (fadd (fadd (fadd
       (fmul (Fin (of_int a)) (Fin (3 / 2)))
       (fmul (Fin (of_int b)) (Fin (3 / 2))))
       (fmul (Fin (of_int c)) (Fin (3 / 2))))
       (fmul (Fin (of_int d)) (Fin 3)))
       (fmul (Fin (of_int e)) (Fin 3)))
       (fmul (Fin (of_int f)) (Fin (3 / 2))))
     = Fin (of_int a * 3 / 2 + of_int b * 3 / 2 + of_int c * 3 / 2 + of_int d * 3 + of_int e * 3
            - of_int f * 3 / 2)"
proof -
  have 1: "\<bar>3 * a + 3 * b\<bar> < 2 ^ 53" using assms by simp
  have 2: "\<bar>3 * a + 3 * b + 3 * c\<bar> < 2 ^ 53" using assms by simp
  have 3: "\<bar>3 * a + 3 * b + 3 * c + 6 * d\<bar> < 2 ^ 53" using assms by simp
  have 4: "\<bar>3 * a + 3 * b + 3 * c + 6 * d + 6 * e\<bar> < 2 ^ 53" using assms by simp
  have 5: "\<bar>3 * a + 3 * b + 3 * c + 6 * d + 6 * e - 3 * f\<bar> < 2 ^ 53" using assms by simp
  have "round1 (fsub (fadd (fadd (fadd (fadd
       (fmul (Fin (of_int a)) (Fin (3 / 2)))
       (fmul (Fin (of_int b)) (Fin (3 / 2))))
       (fmul (Fin (of_int c)) (Fin (3 / 2))))
       (fmul (Fin (of_int d)) (Fin 3)))
       (fmul (Fin (of_int e)) (Fin 3)))
       (fmul (Fin (of_int f)) (Fin (3 / 2))))
     = Fin (of_int (3 * a + 3 * b + 3 * c + 6 * d + 6 * e - 3 * f) / 2)"
    by (simp only: fmul_half [OF assms(1)] fmul_half [OF assms(2)] fmul_half [OF assms(3)]
        fmul_half [OF assms(4)] fmul_half [OF assms(5)] fmul_half [OF assms(6)]
        fadd_half [OF 1] fadd_half [OF 2] fadd_half [OF 3] fadd_half [OF 4]
        fsub_half [OF 5] round1_half [OF 5])
  also have "(of_int (3 * a + 3 * b + 3 * c + 6 * d + 6 * e - 3 * f) / 2 :: rat)
     = of_int a * 3 / 2 + of_int b * 3 / 2 + of_int c * 3 / 2 + of_int d * 3 + of_int e * 3
            - of_int f * 3 / 2"
    by (simp add: field_simps)
  finally show ?thesis .
qed

section \<open>The stable sort on composite scores\<close>

lemma js_lt_finite: "is_finite x \<Longrightarrow> is_finite y \<Longrightarrow> js_lt x y \<longleftrightarrow> rat_of x < rat_of y"
  by (cases x; cases y) simp_all

lemma mset_insort_cmp: "mset (insort_cmp c x ys) = add_mset x (mset ys)"
  by (induction ys) simp_all

lemma mset_stable_sort: "mset (stable_sort c xs) = mset xs"
  by (induction xs) (simp_all add: stable_sort_def mset_insort_cmp)

lemma set_stable_sort: "set (stable_sort c xs) = set xs"
  using mset_stable_sort [of c xs] by (metis set_mset_mset)

lemma filter_insort_cmp:
  assumes "\<forall>y \<in> set ys. P x \<and> P y \<longrightarrow> \<not> js_lt (Fin 0) (SortCompare c x y)"
  shows "filter P (insort_cmp c x ys) = filter P (x # ys)"
  using assms by (induction ys) auto

lemma js_lt_irrefl [simp]: "\<not> js_lt x x"
  by (cases x) simp_all

lemma js_lt_trans: "js_lt x y \<Longrightarrow> js_lt y z \<Longrightarrow> js_lt x z"
  by (cases x; cases y; cases z) simp_all

lemma js_lt_asym: "js_lt x y \<Longrightarrow> \<not> js_lt y x"
  by (cases x; cases y) simp_all

lemma js_not_lt_trans:
  "y \<noteq> NaN \<Longrightarrow> \<not> js_lt x y \<Longrightarrow> \<not> js_lt y z \<Longrightarrow> \<not> js_lt x z"
  by (cases x; cases y; cases z) simp_all

lemma js_ge_iff: "x \<noteq> NaN \<Longrightarrow> y \<noteq> NaN \<Longrightarrow> js_ge x y \<longleftrightarrow> \<not> js_lt x y"
  by (cases x; cases y) (auto simp: js_ge_def js_eq_def)

lemma js_eq_not_lt: "js_eq x v \<Longrightarrow> js_eq y v \<Longrightarrow> \<not> js_lt x y"
  by (cases x; cases y; cases v) (auto simp: js_eq_def)

text \<open>
  The sign of the difference of two numbers that are not \<open>NaN\<close>, read through \<open>SortCompare\<close>,
  is the sign of their comparison.
\<close>

lemma SortCompare_fsub:
  assumes "x \<noteq> NaN" "y \<noteq> NaN" "grid_num x" "grid_num y"
  shows "js_lt (Fin 0) (SortCompare (\<lambda>a b. fsub b a) x y) \<longleftrightarrow> js_lt x y"
    and "js_lt (SortCompare (\<lambda>a b. fsub b a) x y) (Fin 0) \<longleftrightarrow> js_lt y x"
    and "is_zero (SortCompare (\<lambda>a b. fsub b a) x y) \<longleftrightarrow> \<not> js_lt x y \<and> \<not> js_lt y x"
proof -
  have "(js_lt (Fin 0) (SortCompare (\<lambda>a b. fsub b a) x y) \<longleftrightarrow> js_lt x y) \<and>
        (js_lt (SortCompare (\<lambda>a b. fsub b a) x y) (Fin 0) \<longleftrightarrow> js_lt y x) \<and>
        (is_zero (SortCompare (\<lambda>a b. fsub b a) x y) \<longleftrightarrow> \<not> js_lt x y \<and> \<not> js_lt y x)"
  proof (cases "is_finite x \<and> is_finite y")
    case True
    then have f: "is_finite x" "is_finite y" by simp_all
    from fsub_cmp [OF f assms(3,4)] show ?thesis
      by (auto simp: SortCompare_def Let_def js_lt_finite [OF f] js_lt_finite [OF f(2,1)])
  next
    case False
    then show ?thesis
      using assms(1,2)
      by (cases x; cases y) (simp_all add: SortCompare_def Let_def fsub_def is_zero_def)
  qed
  then show "js_lt (Fin 0) (SortCompare (\<lambda>a b. fsub b a) x y) \<longleftrightarrow> js_lt x y"
    and "js_lt (SortCompare (\<lambda>a b. fsub b a) x y) (Fin 0) \<longleftrightarrow> js_lt y x"
    and "is_zero (SortCompare (\<lambda>a b. fsub b a) x y) \<longleftrightarrow> \<not> js_lt x y \<and> \<not> js_lt y x"
    by simp_all
qed

lemma SortCompare_ept:
  assumes "good p" "good q"
  shows "js_lt (Fin 0) (SortCompare compare_ept p q) \<longleftrightarrow> js_lt (ept p) (ept q)"
    and "js_lt (SortCompare compare_ept p q) (Fin 0) \<longleftrightarrow> js_lt (ept q) (ept p)"
    and "is_zero (SortCompare compare_ept p q) \<longleftrightarrow>
           \<not> js_lt (ept p) (ept q) \<and> \<not> js_lt (ept q) (ept p)"
    and "SortCompare compare_ept p q \<noteq> NaN"
proof -
  have e: "SortCompare compare_ept p q = SortCompare (\<lambda>a b. fsub b a) (ept p) (ept q)"
    by (simp add: SortCompare_def compare_ept_def)
  from assms have g: "ept p \<noteq> NaN" "ept q \<noteq> NaN" "grid_num (ept p)" "grid_num (ept q)"
    by (simp_all add: good_def)
  show "js_lt (Fin 0) (SortCompare compare_ept p q) \<longleftrightarrow> js_lt (ept p) (ept q)"
    and "js_lt (SortCompare compare_ept p q) (Fin 0) \<longleftrightarrow> js_lt (ept q) (ept p)"
    and "is_zero (SortCompare compare_ept p q) \<longleftrightarrow>
           \<not> js_lt (ept p) (ept q) \<and> \<not> js_lt (ept q) (ept p)"
    unfolding e by (rule SortCompare_fsub [OF g])+
  show "SortCompare compare_ept p q \<noteq> NaN"
    by (simp add: SortCompare_def Let_def)
qed

lemma consistent_compare_ept:
  assumes "\<forall>p \<in> set xs. good p"
  shows "consistent_comparator (SortCompare compare_ept) xs"
  unfolding consistent_comparator_def
proof (intro ballI)
  fix a b d
  assume "a \<in> set xs" "b \<in> set xs" "d \<in> set xs"
  with assms have g: "good a" "good b" "good d" by simp_all
  then have n: "ept b \<noteq> NaN" by (simp add: good_def)
  let ?c = "SortCompare compare_ept"
  show "?c a b \<noteq> NaN \<and>
        is_zero (?c a a) \<and>
        (is_zero (?c a b) \<longrightarrow> is_zero (?c b a)) \<and>
        (is_zero (?c a b) \<and> is_zero (?c b d) \<longrightarrow> is_zero (?c a d)) \<and>
        (js_lt (?c a b) (Fin 0) \<and> js_lt (?c b d) (Fin 0) \<longrightarrow> js_lt (?c a d) (Fin 0)) \<and>
        (js_lt (Fin 0) (?c a b) \<and> js_lt (Fin 0) (?c b d) \<longrightarrow> js_lt (Fin 0) (?c a d))"
    using g n
    by (auto simp: SortCompare_ept dest: js_lt_trans js_not_lt_trans)
qed

lemma es_sort_stable_sort: "es_sort stable_sort"
  by (simp add: es_sort_def mset_stable_sort)

lemma sorted_insort_ept:
  assumes "good x" "\<forall>y \<in> set ys. good y"
    and "sorted_wrt (\<lambda>a b. \<not> js_lt (ept a) (ept b)) ys"
  shows "sorted_wrt (\<lambda>a b. \<not> js_lt (ept a) (ept b)) (insort_cmp compare_ept x ys)"
  using assms
proof (induction ys)
  case Nil
  then show ?case by simp
next
  case (Cons y ys)
  have s: "set (insort_cmp compare_ept x ys) = insert x (set ys)"
    using mset_insort_cmp [of compare_ept x ys] by (metis set_mset_add_mset_insert set_mset_mset)
  from Cons.prems have gy: "good y" by simp
  then have ny: "ept y \<noteq> NaN" by (simp add: good_def)
  show ?case
  proof (cases "js_lt (ept x) (ept y)")
    case True
    then have "\<not> js_lt (ept y) (ept x)" by (rule js_lt_asym)
    then show ?thesis
      using True Cons SortCompare_ept(1) [OF \<open>good x\<close> gy] by (auto simp: s)
  next
    case False
    then have "\<forall>z \<in> set ys. \<not> js_lt (ept x) (ept z)"
      using Cons.prems(3) ny by (auto dest: js_not_lt_trans)
    then show ?thesis
      using False Cons SortCompare_ept(1) [OF \<open>good x\<close> gy] by auto
  qed
qed

lemma sorted_stable_sort_ept:
  assumes "\<forall>p \<in> set xs. good p"
  shows "sorted_wrt (\<lambda>a b. \<not> js_lt (ept a) (ept b)) (stable_sort compare_ept xs)"
  using assms
proof (induction xs)
  case Nil
  then show ?case by (simp add: stable_sort_def)
next
  case (Cons x xs)
  have "stable_sort compare_ept (x # xs) = insort_cmp compare_ept x (stable_sort compare_ept xs)"
    by (simp add: stable_sort_def)
  moreover have "sorted_wrt (\<lambda>a b. \<not> js_lt (ept a) (ept b))
      (insort_cmp compare_ept x (stable_sort compare_ept xs))"
    using Cons by (intro sorted_insort_ept) (simp_all add: set_stable_sort)
  ultimately show ?case by simp
qed

lemma filter_stable_sort_ept:
  assumes "\<forall>p \<in> set xs. good p"
  shows "filter (\<lambda>p. js_eq (ept p) v) (stable_sort compare_ept xs) = filter (\<lambda>p. js_eq (ept p) v) xs"
  using assms
proof (induction xs)
  case Nil
  then show ?case by (simp add: stable_sort_def)
next
  case (Cons x xs)
  let ?P = "\<lambda>p. js_eq (ept p) v"
  have "\<forall>y \<in> set (stable_sort compare_ept xs).
          ?P x \<and> ?P y \<longrightarrow> \<not> js_lt (Fin 0) (SortCompare compare_ept x y)"
  proof (intro ballI impI)
    fix y
    assume y: "y \<in> set (stable_sort compare_ept xs)" and P: "?P x \<and> ?P y"
    then have g: "good x" "good y" using Cons.prems by (simp_all add: set_stable_sort)
    from P have "\<not> js_lt (ept x) (ept y)" using js_eq_not_lt [of "ept x" v "ept y"] by simp
    then show "\<not> js_lt (Fin 0) (SortCompare compare_ept x y)"
      using SortCompare_ept(1) [OF g] by simp
  qed
  then have "filter ?P (insort_cmp compare_ept x (stable_sort compare_ept xs))
      = filter ?P (x # stable_sort compare_ept xs)"
    by (rule filter_insort_cmp)
  then show ?case using Cons by (simp add: stable_sort_def)
qed

lemma prefix_filter_take: "prefix (filter P (take n xs)) (filter P xs)"
proof -
  have "filter P xs = filter P (take n xs) @ filter P (drop n xs)"
    by (metis append_take_drop_id filter_append)
  then show ?thesis by (simp add: prefix_def)
qed

section \<open>Evaluation\<close>

text \<open>Rules with which the simplifier computes \<open>fl\<close> and the operations on numerals.\<close>

lemma bitlen_0: "bitlen 0 = 0" by (simp add: bitlen.simps)
lemma bitlen_One: "bitlen (numeral Num.One) = 1" by (simp add: bitlen.simps)
lemma bitlen_Bit0: "bitlen (numeral (Num.Bit0 k)) = 1 + bitlen (numeral k)"
  by (subst bitlen.simps) simp
lemma bitlen_Bit1: "bitlen (numeral (Num.Bit1 k)) = 1 + bitlen (numeral k)"
  by (subst bitlen.simps) simp

lemma floor_rat_numeral_div: "\<lfloor>(numeral a :: rat) / numeral b\<rfloor> = numeral a div numeral b"
  by (metis floor_divide_of_int_eq of_int_numeral)
lemma ceiling_rat_numeral_div: "\<lceil>(numeral a :: rat) / numeral b\<rceil> = - (- numeral a div numeral b)"
  by (metis ceiling_def floor_divide_of_int_eq minus_divide_left of_int_minus of_int_numeral)
lemma floor_rat_one_div: "\<lfloor>(1 :: rat) / numeral b\<rfloor> = 1 div numeral b"
  by (metis floor_divide_of_int_eq of_int_numeral of_int_1)
lemma ceiling_rat_one_div: "\<lceil>(1 :: rat) / numeral b\<rceil> = - (- 1 div numeral b)"
  by (metis ceiling_def floor_divide_of_int_eq minus_divide_left of_int_minus of_int_numeral of_int_1)

lemmas num_eval = fl_def ilog2_def round_even_def emin_def huge_def Let_def
  bitlen_0 bitlen_1 bitlen_One bitlen_Bit0 bitlen_Bit1
  floor_rat_numeral_div ceiling_rat_numeral_div floor_rat_one_div ceiling_rat_one_div
  fmul_def fdiv_def fsub_def round1_def is_zero_def is_inf_def

section \<open>The fields of a projected row\<close>

lemma project_sel:
  "name (project S idx r) = cell r idx ''PLAYER''"
  "team (project S idx r) = cell r idx ''TEAM''"
  "gp (project S idx r) = stat r idx ''GP''"
  "pts (project S idx r) = stat r idx ''PTS''"
  "reb (project S idx r) = stat r idx ''REB''"
  "ast (project S idx r) = stat r idx ''AST''"
  "stl (project S idx r) = stat r idx ''STL''"
  "blk (project S idx r) = stat r idx ''BLK''"
  "tov (project S idx r) = stat r idx ''TOV''"
  "fgm (project S idx r) = stat r idx ''FGM''"
  "fga (project S idx r) = stat r idx ''FGA''"
  "fg3m (project S idx r) = stat r idx ''FG3M''"
  "fg3a (project S idx r) = stat r idx ''FG3A''"
  "ftm (project S idx r) = stat r idx ''FTM''"
  "fta (project S idx r) = stat r idx ''FTA''"
  "fgPct (project S idx r) = percent S (pct S r idx ''FG_PCT'' (stat r idx ''FGM'') (stat r idx ''FGA''))"
  "ftPct (project S idx r) = percent S (pct S r idx ''FT_PCT'' (stat r idx ''FTM'') (stat r idx ''FTA''))"
  "tpPct (project S idx r) = percent S (pct S r idx ''FG3_PCT'' (stat r idx ''FG3M'') (stat r idx ''FG3A''))"
  "ppg (project S idx r) = per_game S (stat r idx ''GP'') (stat r idx ''PTS'')"
  "rpg (project S idx r) = per_game S (stat r idx ''GP'') (stat r idx ''REB'')"
  "apg (project S idx r) = per_game S (stat r idx ''GP'') (stat r idx ''AST'')"
  "spg (project S idx r) = per_game S (stat r idx ''GP'') (stat r idx ''STL'')"
  "bpg (project S idx r) = per_game S (stat r idx ''GP'') (stat r idx ''BLK'')"
  "topg (project S idx r) = per_game S (stat r idx ''GP'') (stat r idx ''TOV'')"
  "ept (project S idx r) = calcEPT S (stat r idx ''PTS'') (stat r idx ''REB'')
     (stat r idx ''AST'') (stat r idx ''STL'') (stat r idx ''BLK'') (stat r idx ''TOV'')"
  by (simp_all add: project_def Let_def)

subsection \<open>The worked example\<close>

lemma spec_index:
  "header_index spec_headers ''GP'' = Some 2"
  "header_index spec_headers ''PTS'' = Some 3"
  "header_index spec_headers ''REB'' = Some 4"
  "header_index spec_headers ''AST'' = Some 5"
  "header_index spec_headers ''STL'' = Some 6"
  "header_index spec_headers ''BLK'' = Some 7"
  "header_index spec_headers ''TOV'' = Some 8"
  by (simp_all add: header_index_def spec_headers_def assign_def enumerate_eq_zip upt_rec)

lemma spec_totals:
  "stat spec_row (header_index spec_headers) ''GP'' = Num (Fin 2)"
  "stat spec_row (header_index spec_headers) ''PTS'' = Num (Fin 20)"
  "stat spec_row (header_index spec_headers) ''REB'' = Num (Fin 10)"
  "stat spec_row (header_index spec_headers) ''AST'' = Num (Fin 6)"
  "stat spec_row (header_index spec_headers) ''STL'' = Num (Fin 4)"
  "stat spec_row (header_index spec_headers) ''BLK'' = Num (Fin 2)"
  "stat spec_row (header_index spec_headers) ''TOV'' = Num (Fin 4)"
  by (simp_all add: stat_def cell_def spec_index spec_row_def)

lemma spec_ept: "calcEPT S (Num (Fin 20)) (Num (Fin 10)) (Num (Fin 6)) (Num (Fin 4)) (Num (Fin 2)) (Num (Fin 4)) = Fin 66"
  by (simp add: calcEPT_def num_eval)

lemma spec_rates:
  "per_game S (Num (Fin 2)) (Num (Fin 20)) = Fin 10"
  "per_game S (Num (Fin 2)) (Num (Fin 10)) = Fin 5"
  "per_game S (Num (Fin 2)) (Num (Fin 6)) = Fin 3"
  "per_game S (Num (Fin 2)) (Num (Fin 4)) = Fin 2"
  "per_game S (Num (Fin 2)) (Num (Fin 2)) = Fin 1"
  by (simp_all add: per_game_def num_eval)

section \<open>The header index, the label and the engine's sort\<close>

lemma header_index_snoc:
  "header_index (hs @ [h]) = assign (header_index hs) h (length hs)"
  by (simp add: header_index_def enumerate_append_eq)

lemma header_index_Nil: "header_index [] = Map.empty"
  by (simp add: header_index_def)

lemma header_index_proto: "header_index hs ''__proto__'' = None"
  by (induction hs rule: rev_induct) (simp_all add: header_index_snoc header_index_Nil assign_def)

lemma header_index_None: "k \<notin> set hs \<Longrightarrow> header_index hs k = None"
  by (induction hs rule: rev_induct) (auto simp: header_index_snoc header_index_Nil assign_def)

lemma header_index_last:
  assumes "k \<in> set hs" "k \<noteq> ''__proto__''"
  shows "\<exists>i. header_index hs k = Some i \<and> i < length hs \<and> hs ! i = k \<and>
             (\<forall>j. i < j \<and> j < length hs \<longrightarrow> hs ! j \<noteq> k)"
  using assms
proof (induction hs rule: rev_induct)
  case Nil
  then show ?case by simp
next
  case (snoc h hs)
  show ?case
  proof (cases "h = k")
    case True
    then have "header_index (hs @ [h]) k = Some (length hs)"
      using snoc.prems by (simp add: header_index_snoc assign_def)
    then show ?thesis using True by auto
  next
    case False
    then have "k \<in> set hs" using snoc.prems by simp
    then obtain i where i: "header_index hs k = Some i" "i < length hs" "hs ! i = k"
      "\<forall>j. i < j \<and> j < length hs \<longrightarrow> hs ! j \<noteq> k"
      using snoc.IH snoc.prems by blast
    have "header_index (hs @ [h]) k = Some i"
      using False i(1) by (simp add: header_index_snoc assign_def)
    moreover have "(hs @ [h]) ! i = k" using i by (simp add: nth_append)
    moreover have "\<forall>j. i < j \<and> j < length (hs @ [h]) \<longrightarrow> (hs @ [h]) ! j \<noteq> k"
      using i(4) False by (auto simp: nth_append less_Suc_eq)
    ultimately show ?thesis using i(2) by auto
  qed
qed

lemma nat_str_numeral:
  "nat_str (numeral k) = (if (numeral k :: nat) < 10 then [''0123456789'' ! numeral k]
     else nat_str (numeral k div 10) @ [''0123456789'' ! (numeral k mod 10)])"
  by (rule nat_str.simps)

lemma nat_str_0: "nat_str 0 = ''0''"
  by (simp add: nat_str.simps)

lemma nat_str_1: "nat_str 1 = ''1''"
  by (simp add: nat_str.simps)

lemmas str_eval = nat_str_numeral nat_str_0 nat_str_1 int_str_def padStart_def js_rem_def
  getNBASeason_def Let_def

lemma pad_two_digits:
  assumes "n < 100"
  shows "padStart 2 (CHR ''0'') (nat_str n) = two_digits n"
proof (cases "n < 10")
  case True
  then show ?thesis
    by (simp add: nat_str.simps [of n] padStart_def two_digits_def)
next
  case False
  then have "n div 10 < 10" using assms by simp
  then have "nat_str n = [''0123456789'' ! (n div 10), ''0123456789'' ! (n mod 10)]"
    using False by (simp add: nat_str.simps [of n] nat_str.simps [of "n div 10"])
  then show ?thesis by (simp add: padStart_def two_digits_def)
qed

lemma js_rem_nonneg: "0 \<le> a \<Longrightarrow> js_rem a 100 = a mod 100"
  by (simp add: js_rem_def sgn_if)

lemma end_year_label:
  assumes "0 \<le> Y + 1"
  shows "padStart 2 (CHR ''0'') (int_str (js_rem (Y + 1) 100)) = two_digits (nat ((Y + 1) mod 100))"
proof -
  have "js_rem (Y + 1) 100 = (Y + 1) mod 100" using assms by (rule js_rem_nonneg)
  moreover have "\<not> (Y + 1) mod 100 < 0" "nat ((Y + 1) mod 100) < 100"
    by (simp_all add: not_less)
  ultimately show ?thesis
    by (simp add: int_str_def pad_two_digits)
qed

lemma mset_take_drop: "mset (take p xs) + mset (drop p xs) = mset xs"
  by (metis append_take_drop_id mset_append)

lemma mset_v8_insert: "mset (v8_insert c pivot xs) = add_mset pivot (mset xs)"
  by (simp add: v8_insert_def Let_def mset_take_drop)

lemma mset_fold_v8_insert: "mset (fold (v8_insert c) ys zs) = mset ys + mset zs"
  by (induction ys arbitrary: zs) (simp_all add: mset_v8_insert)

lemma mset_v8_sort: "mset (v8_sort c xs) = mset xs"
proof (cases xs)
  case Nil
  then show ?thesis by simp
next
  case (Cons low ys)
  show ?thesis
  proof (cases ys)
    case Nil
    then show ?thesis using Cons by simp
  next
    case (Cons high zs)
    have "mset (drop n (low # high # zs)) + mset (take n (low # high # zs))
        = mset (low # high # zs)" for n
      by (metis add.commute mset_take_drop)
    then show ?thesis
      using Cons \<open>xs = low # ys\<close>
      by (simp add: Let_def mset_fold_v8_insert del: take_Suc_Cons drop_Suc_Cons)
  qed
qed

subsection \<open>The sort of V8 meets the specification\<close>

text \<open>
  Under a consistent comparator the stable sort is the sort by rank, and so is the sort of V8:
  its result has the elements of the array, is sorted by rank, and keeps the order of the
  elements of equal rank.
\<close>

lemma sign_cases:
  "v \<noteq> NaN \<Longrightarrow>
     (js_lt v (Fin 0) \<and> \<not> is_zero v \<and> \<not> js_lt (Fin 0) v) \<or>
     (\<not> js_lt v (Fin 0) \<and> is_zero v \<and> \<not> js_lt (Fin 0) v) \<or>
     (\<not> js_lt v (Fin 0) \<and> \<not> is_zero v \<and> js_lt (Fin 0) v)"
  by (cases v) (auto simp: is_zero_def)

lemma SortCompare_not_NaN [simp]: "SortCompare c a b \<noteq> NaN"
  by (simp add: SortCompare_def Let_def)

lemma keyed_rank:
  assumes cc: "consistent_comparator (SortCompare c) xs"
  shows "keyed c (rank c xs) (set xs)"
proof -
  let ?C = "SortCompare c"
  let ?lt = "\<lambda>a b. js_lt (?C a b) (Fin 0)"
  let ?gt = "\<lambda>a b. js_lt (Fin 0) (?C a b)"
  let ?eq = "\<lambda>a b. is_zero (?C a b)"
  have tri: "(?lt a b \<and> \<not> ?eq a b \<and> \<not> ?gt a b) \<or> (\<not> ?lt a b \<and> ?eq a b \<and> \<not> ?gt a b) \<or>
             (\<not> ?lt a b \<and> \<not> ?eq a b \<and> ?gt a b)" for a b
    by (rule sign_cases) simp
  have refl: "?eq a a" if "a \<in> set xs" for a
    using cc that unfolding consistent_comparator_def by blast
  have sym: "?eq b a" if "?eq a b" "a \<in> set xs" "b \<in> set xs" for a b
    using cc that unfolding consistent_comparator_def by blast
  have eq_trans: "?eq a d" if "?eq a b" "?eq b d" "a \<in> set xs" "b \<in> set xs" "d \<in> set xs" for a b d
    using cc that unfolding consistent_comparator_def by blast
  have lt_trans: "?lt a d" if "?lt a b" "?lt b d" "a \<in> set xs" "b \<in> set xs" "d \<in> set xs" for a b d
    using cc that unfolding consistent_comparator_def by blast
  have gt_trans: "?gt a d" if "?gt a b" "?gt b d" "a \<in> set xs" "b \<in> set xs" "d \<in> set xs" for a b d
    using cc that unfolding consistent_comparator_def by blast
  have irrefl: "\<not> ?lt a a" "\<not> ?gt a a" if "a \<in> set xs" for a
    using refl [OF that] tri [of a a] by auto
  have lt_gt: "?gt b a" if "?lt a b" "a \<in> set xs" "b \<in> set xs" for a b
  proof -
    have "\<not> ?eq b a" using sym [of b a] that tri [of a b] by blast
    moreover have "\<not> ?lt b a" using lt_trans [of a b a] that irrefl(1) [of a] by blast
    ultimately show ?thesis using tri [of b a] by blast
  qed
  have gt_lt: "?lt b a" if "?gt a b" "a \<in> set xs" "b \<in> set xs" for a b
  proof -
    have "\<not> ?eq b a" using sym [of b a] that tri [of a b] by blast
    moreover have "\<not> ?gt b a" using gt_trans [of a b a] that irrefl(2) [of a] by blast
    ultimately show ?thesis using tri [of b a] by blast
  qed
  have eq_lt: "?lt a d" if "?eq a b" "?lt b d" "a \<in> set xs" "b \<in> set xs" "d \<in> set xs" for a b d
  proof -
    have "\<not> ?eq a d"
      using eq_trans [of b a d] sym [of a b] that tri [of b d] by blast
    moreover have "\<not> ?gt a d"
    proof
      assume "?gt a d"
      then have "?lt d a" using gt_lt that by blast
      then have "?lt b a" using lt_trans [of b d a] that by blast
      then show False using sym [of a b] that tri [of b a] by blast
    qed
    ultimately show ?thesis using tri [of a d] by blast
  qed
  have lt_eq: "?lt a d" if "?lt a b" "?eq b d" "a \<in> set xs" "b \<in> set xs" "d \<in> set xs" for a b d
  proof -
    have "\<not> ?eq a d"
      using eq_trans [of a d b] sym [of b d] that tri [of a b] by blast
    moreover have "\<not> ?gt a d"
    proof
      assume "?gt a d"
      then have "?lt d a" using gt_lt that by blast
      then have "?lt d b" using lt_trans [of d a b] that by blast
      then show False using sym [of b d] that tri [of d b] by blast
    qed
    ultimately show ?thesis using tri [of a d] by blast
  qed
  let ?B = "\<lambda>a. {b \<in> set xs. ?lt b a}"
  have fin: "finite (?B a)" for a by simp
  have less: "rank c xs a < rank c xs b" if "?lt a b" "a \<in> set xs" "b \<in> set xs" for a b
  proof -
    have "?B a \<subseteq> ?B b" using lt_trans that by blast
    moreover have "a \<in> ?B b" "a \<notin> ?B a" using that irrefl(1) by auto
    ultimately have "?B a \<subset> ?B b" by blast
    then show ?thesis unfolding rank_def by (intro psubset_card_mono fin)
  qed
  have same: "rank c xs a = rank c xs b" if "?eq a b" "a \<in> set xs" "b \<in> set xs" for a b
  proof -
    have "?B a = ?B b"
    proof (intro set_eqI iffI)
      fix x assume "x \<in> ?B a"
      then show "x \<in> ?B b" using lt_eq [of x a b] that by blast
    next
      fix x assume "x \<in> ?B b"
      then show "x \<in> ?B a" using lt_eq [of x b a] sym [of a b] that by blast
    qed
    then show ?thesis by (simp add: rank_def)
  qed
  show ?thesis
    unfolding keyed_def
  proof (intro ballI conjI)
    fix a b assume ab: "a \<in> set xs" "b \<in> set xs"
    show "?lt a b \<longleftrightarrow> rank c xs a < rank c xs b"
    proof
      assume "?lt a b" then show "rank c xs a < rank c xs b" using less ab by blast
    next
      assume r: "rank c xs a < rank c xs b"
      have "\<not> ?eq a b" using same ab r by fastforce
      moreover have "\<not> ?gt a b" using less [of b a] gt_lt [of a b] ab r by fastforce
      ultimately show "?lt a b" using tri [of a b] by blast
    qed
    show "?gt a b \<longleftrightarrow> rank c xs b < rank c xs a"
    proof
      assume "?gt a b" then show "rank c xs b < rank c xs a" using less gt_lt ab by blast
    next
      assume r: "rank c xs b < rank c xs a"
      have "\<not> ?eq a b" using same ab r by fastforce
      moreover have "\<not> ?lt a b" using less [of a b] ab r by fastforce
      ultimately show "?gt a b" using tri [of a b] by blast
    qed
  qed
qed

lemma keyedD:
  assumes "keyed c k A" "a \<in> A" "b \<in> A"
  shows "js_lt (SortCompare c a b) (Fin 0) \<longleftrightarrow> k a < k b"
    and "js_lt (Fin 0) (SortCompare c a b) \<longleftrightarrow> k b < k a"
  using assms unfolding keyed_def by blast+

lemma keyed_mono: "keyed c k A \<Longrightarrow> B \<subseteq> A \<Longrightarrow> keyed c k B"
  unfolding keyed_def by blast

lemma insort_cmp_key:
  assumes "keyed c k (insert x (set ys))"
  shows "insort_cmp c x ys = insort_key k x ys"
  using assms
proof (induction ys)
  case Nil
  then show ?case by simp
next
  case (Cons y ys)
  have "keyed c k (insert x (set ys))"
    using Cons.prems by (rule keyed_mono) auto
  then have "insort_cmp c x ys = insort_key k x ys" by (rule Cons.IH)
  moreover have "js_lt (Fin 0) (SortCompare c x y) \<longleftrightarrow> k y < k x"
    using keyedD(2) [OF Cons.prems, of x y] by simp
  ultimately show ?case by auto
qed

lemma stable_sort_key:
  assumes "keyed c k (set xs)"
  shows "stable_sort c xs = sort_key k xs"
  using assms
proof (induction xs)
  case Nil
  then show ?case by (simp add: stable_sort_def)
next
  case (Cons x xs)
  have k: "keyed c k (set xs)" using Cons.prems by (rule keyed_mono) auto
  then have ih: "stable_sort c xs = sort_key k xs" by (rule Cons.IH)
  have "keyed c k (insert x (set (sort_key k xs)))" using Cons.prems by simp
  then have "insort_cmp c x (sort_key k xs) = insort_key k x (sort_key k xs)"
    by (rule insort_cmp_key)
  then show ?case using ih by (simp add: stable_sort_def)
qed

text \<open>
  The binary search keeps the elements left of \<open>left\<close> not after the pivot and the elements
  from \<open>right\<close> on after it; in a sorted list it ends at the position behind the last element
  that is not after the pivot.
\<close>

lemma v8_bsearch_position:
  assumes "keyed c k (insert pivot (set ys))" "sorted (map k ys)"
    and "left \<le> right" "right \<le> length ys"
    and "\<forall>i < left. k (ys ! i) \<le> k pivot"
    and "\<forall>i. right \<le> i \<and> i < length ys \<longrightarrow> k pivot < k (ys ! i)"
  shows "v8_bsearch c pivot ys left right \<le> length ys \<and>
         (\<forall>i < v8_bsearch c pivot ys left right. k (ys ! i) \<le> k pivot) \<and>
         (\<forall>i. v8_bsearch c pivot ys left right \<le> i \<and> i < length ys \<longrightarrow> k pivot < k (ys ! i))"
  using assms
proof (induction c pivot ys left right rule: v8_bsearch.induct)
  case (1 c pivot xs left right)
  show ?case
  proof (cases "left < right")
    case False
    then have "v8_bsearch c pivot xs left right = left"
      by (subst v8_bsearch.simps) simp
    moreover have "left = right" using False "1.prems"(3) by simp
    ultimately show ?thesis using "1.prems" by auto
  next
    case True
    define mid where "mid = left + (right - left) div 2"
    have m: "left \<le> mid" "mid < right" using True by (simp_all add: mid_def)
    then have ml: "mid < length xs" using "1.prems"(4) by simp
    then have mem: "xs ! mid \<in> insert pivot (set xs)" by simp
    have cmp: "js_lt (SortCompare c pivot (xs ! mid)) (Fin 0) \<longleftrightarrow> k pivot < k (xs ! mid)"
      using keyedD(1) [OF "1.prems"(1) _ mem, of pivot] by simp
    have srt: "i \<le> j \<Longrightarrow> j < length xs \<Longrightarrow> k (xs ! i) \<le> k (xs ! j)" for i j
      using "1.prems"(2) by (simp add: sorted_iff_nth_mono)
    show ?thesis
    proof (cases "k pivot < k (xs ! mid)")
      case less: True
      then have e: "v8_bsearch c pivot xs left right = v8_bsearch c pivot xs left mid"
        using True cmp by (subst v8_bsearch.simps) (simp add: mid_def Let_def)
      have up: "\<forall>i. mid \<le> i \<and> i < length xs \<longrightarrow> k pivot < k (xs ! i)"
      proof (intro allI impI)
        fix i assume i: "mid \<le> i \<and> i < length xs"
        then have "k (xs ! mid) \<le> k (xs ! i)" using srt [of mid i] by simp
        then show "k pivot < k (xs ! i)" using less by simp
      qed
      have lt: "js_lt (SortCompare c pivot (xs ! mid)) (Fin 0)"
        using cmp less by simp
      have le: "mid \<le> length xs" using ml by simp
      show ?thesis
        unfolding e
        by (rule "1.IH"(1) [OF True mid_def refl lt "1.prems"(1,2) m(1) le "1.prems"(5) up])
    next
      case notless: False
      then have e: "v8_bsearch c pivot xs left right = v8_bsearch c pivot xs (mid + 1) right"
        using True cmp by (subst v8_bsearch.simps) (simp add: mid_def Let_def)
      have low: "\<forall>i < mid + 1. k (xs ! i) \<le> k pivot"
      proof (intro allI impI)
        fix i assume "i < mid + 1"
        then have "k (xs ! i) \<le> k (xs ! mid)" using srt [of i mid] ml by simp
        then show "k (xs ! i) \<le> k pivot" using notless by simp
      qed
      have nlt: "\<not> js_lt (SortCompare c pivot (xs ! mid)) (Fin 0)"
        using cmp notless by simp
      have le: "mid + 1 \<le> right" using m(2) by simp
      show ?thesis
        unfolding e
        by (rule "1.IH"(2) [OF True mid_def refl nlt "1.prems"(1,2) le "1.prems"(4) low "1.prems"(6)])
    qed
  qed
qed

lemma v8_insert_sorted:
  assumes "keyed c k (insert pivot (set ys))" "sorted (map k ys)"
  shows "sorted (map k (v8_insert c pivot ys))"
    and "filter (\<lambda>x. K = k x) (v8_insert c pivot ys) = filter (\<lambda>x. K = k x) (ys @ [pivot])"
proof -
  define p where "p = v8_bsearch c pivot ys 0 (length ys)"
  have pos: "p \<le> length ys" "\<forall>i < p. k (ys ! i) \<le> k pivot"
    "\<forall>i. p \<le> i \<and> i < length ys \<longrightarrow> k pivot < k (ys ! i)"
    using v8_bsearch_position [OF assms, of 0 "length ys"] by (simp_all add: p_def)
  have e: "v8_insert c pivot ys = take p ys @ pivot # drop p ys"
    by (simp add: v8_insert_def p_def Let_def)
  have before: "\<forall>x \<in> set (take p ys). k x \<le> k pivot"
    using pos(1,2) by (auto simp: in_set_conv_nth)
  have after: "\<forall>x \<in> set (drop p ys). k pivot < k x"
  proof
    fix x assume "x \<in> set (drop p ys)"
    then obtain i where "i < length ys - p" "x = ys ! (p + i)"
      by (auto simp: in_set_conv_nth)
    then show "k pivot < k x" using pos(3) by simp
  qed
  have st: "sorted (map k (take p ys))" "sorted (map k (drop p ys))"
    using assms(2) by (simp_all add: sorted_map sorted_wrt_take sorted_wrt_drop)
  have "\<forall>x \<in> set (take p ys). \<forall>y \<in> set (drop p ys). k x \<le> k y"
    using before after by fastforce
  then show "sorted (map k (v8_insert c pivot ys))"
    unfolding e using st before after
    by (auto simp: sorted_append less_imp_le)
  have "filter (\<lambda>x. K = k x) (drop p ys) = []" if "K = k pivot"
    using after that by (auto simp: filter_empty_conv)
  moreover have "filter (\<lambda>x. K = k x) ys
      = filter (\<lambda>x. K = k x) (take p ys) @ filter (\<lambda>x. K = k x) (drop p ys)"
    by (metis append_take_drop_id filter_append)
  ultimately show "filter (\<lambda>x. K = k x) (v8_insert c pivot ys)
      = filter (\<lambda>x. K = k x) (ys @ [pivot])"
    unfolding e by auto
qed

lemma set_v8_insert: "set (v8_insert c pivot ys) = insert pivot (set ys)"
  using mset_v8_insert [of c pivot ys] by (metis set_mset_add_mset_insert set_mset_mset)

lemma fold_v8_insert_sorted:
  assumes "keyed c k (set out \<union> set rest)" "sorted (map k out)"
    and "filter (\<lambda>x. K = k x) out = filter (\<lambda>x. K = k x) pre"
  shows "sorted (map k (fold (v8_insert c) rest out)) \<and>
         filter (\<lambda>x. K = k x) (fold (v8_insert c) rest out) = filter (\<lambda>x. K = k x) (pre @ rest)"
  using assms
proof (induction rest arbitrary: out pre)
  case Nil
  then show ?case by simp
next
  case (Cons x rest)
  have kx: "keyed c k (insert x (set out))"
    using Cons.prems(1) by (rule keyed_mono) auto
  note ins = v8_insert_sorted [OF kx Cons.prems(2)]
  have "keyed c k (set (v8_insert c x out) \<union> set rest)"
    using Cons.prems(1) by (rule keyed_mono) (auto simp: set_v8_insert)
  moreover have "filter (\<lambda>x. K = k x) (v8_insert c x out) = filter (\<lambda>x. K = k x) (pre @ [x])"
    using ins(2) [of K] Cons.prems(3) by simp
  ultimately have "sorted (map k (fold (v8_insert c) rest (v8_insert c x out))) \<and>
      filter (\<lambda>x. K = k x) (fold (v8_insert c) rest (v8_insert c x out))
        = filter (\<lambda>x. K = k x) ((pre @ [x]) @ rest)"
    using ins(1) by (intro Cons.IH)
  then show ?case by simp
qed

lemma v8_run_ascending:
  "keyed c k (insert previous (set xs)) \<Longrightarrow>
     sorted (map k (previous # take (v8_run c False previous xs) xs))"
proof (induction xs arbitrary: previous)
  case Nil
  then show ?case by simp
next
  case (Cons current xs)
  have cmp: "js_lt (SortCompare c current previous) (Fin 0) \<longleftrightarrow> k current < k previous"
    using keyedD(1) [OF Cons.prems, of current previous] by simp
  show ?case
  proof (cases "k current < k previous")
    case True
    then show ?thesis using cmp by simp
  next
    case False
    have "keyed c k (insert current (set xs))"
      using Cons.prems by (rule keyed_mono) auto
    then have "sorted (map k (current # take (v8_run c False current xs) xs))"
      by (rule Cons.IH)
    then show ?thesis using cmp False by auto
  qed
qed

lemma v8_run_descending:
  "keyed c k (insert previous (set xs)) \<Longrightarrow>
     sorted_wrt (\<lambda>a b. b < a) (map k (previous # take (v8_run c True previous xs) xs))"
proof (induction xs arbitrary: previous)
  case Nil
  then show ?case by simp
next
  case (Cons current xs)
  have cmp: "js_lt (SortCompare c current previous) (Fin 0) \<longleftrightarrow> k current < k previous"
    using keyedD(1) [OF Cons.prems, of current previous] by simp
  show ?case
  proof (cases "k current < k previous")
    case False
    then show ?thesis using cmp by simp
  next
    case True
    have "keyed c k (insert current (set xs))"
      using Cons.prems by (rule keyed_mono) auto
    then have "sorted_wrt (\<lambda>a b. b < a) (map k (current # take (v8_run c True current xs) xs))"
      by (rule Cons.IH)
    then show ?thesis using cmp True by auto
  qed
qed

lemma descending_rev:
  fixes k :: "'a \<Rightarrow> nat"
  assumes "sorted_wrt (\<lambda>a b. b < a) (map k xs)"
  shows "sorted (map k (rev xs))"
    and "filter (\<lambda>x. K = k x) (rev xs) = filter (\<lambda>x. K = k x) xs"
  using assms
proof (induction xs)
  case Nil
  { case 1 show ?case by simp }
  { case 2 show ?case by simp }
next
  case (Cons x xs)
  { case 1
    then have "sorted (map k (rev xs))" "\<forall>y \<in> set xs. k y < k x"
      using Cons.IH(1) by auto
    then show ?case by (auto simp: sorted_append less_imp_le) }
  { case 2
    then have r: "filter (\<lambda>x. K = k x) (rev xs) = filter (\<lambda>x. K = k x) xs"
      and lt: "\<forall>y \<in> set xs. k y < k x"
      using Cons.IH(2) by auto
    have "filter (\<lambda>x. K = k x) xs = []" if "K = k x"
      using lt that by (auto simp: filter_empty_conv)
    then show ?case using r by auto }
qed

lemma v8_sort_sort_key:
  assumes "keyed c k (set xs)"
  shows "v8_sort c xs = sort_key k xs"
proof (cases xs)
  case Nil
  then show ?thesis by simp
next
  case (Cons low ys)
  show ?thesis
  proof (cases ys)
    case Nil
    then show ?thesis using Cons by simp
  next
    case ys: (Cons high zs)
    define d where "d = js_lt (SortCompare c high low) (Fin 0)"
    define m where "m = v8_run c d high zs"
    define run where "run = low # high # take m zs"
    define run' where "run' = (if d then rev run else run)"
    have xs: "xs = low # high # zs" using Cons ys by simp
    have v: "v8_sort c xs = fold (v8_insert c) (drop m zs) run'"
      by (simp add: xs Let_def d_def m_def run_def run'_def)
    have all: "run @ drop m zs = xs"
      by (simp add: run_def xs)
    have cmp: "d \<longleftrightarrow> k high < k low"
      using keyedD(1) [OF assms, of high low] by (simp add: d_def xs)
    have kz: "keyed c k (insert high (set zs))"
      using assms by (rule keyed_mono) (auto simp: xs)
    have run': "sorted (map k run') \<and>
        (\<forall>K. filter (\<lambda>x. K = k x) run' = filter (\<lambda>x. K = k x) run)"
    proof (cases d)
      case False
      have "sorted (map k (high # take m zs))"
        using v8_run_ascending [OF kz] False by (simp add: m_def)
      then show ?thesis using False cmp by (auto simp: run'_def run_def)
    next
      case True
      have "sorted_wrt (\<lambda>a b. b < a) (map k (high # take m zs))"
        using v8_run_descending [OF kz] True by (simp add: m_def)
      then have "sorted_wrt (\<lambda>a b. b < a) (map k run)"
        using True cmp by (auto simp: run_def)
      then show ?thesis
        using descending_rev [of k run] True by (simp add: run'_def)
    qed
    have ku: "keyed c k (set run' \<union> set (drop m zs))"
      using assms by (rule keyed_mono) (auto simp: run'_def run_def xs dest: in_set_takeD in_set_dropD)
    have res: "sorted (map k (v8_sort c xs))"
      "filter (\<lambda>x. K = k x) (v8_sort c xs) = filter (\<lambda>x. K = k x) xs" for K
      using fold_v8_insert_sorted [OF ku, of K run] run' all by (simp_all add: v)
    show ?thesis
      by (rule properties_for_sort_key [symmetric]) (simp_all add: mset_v8_sort res)
  qed
qed

lemma v8_sort_stable:
  assumes "consistent_comparator (SortCompare c) xs"
  shows "v8_sort c xs = stable_sort c xs"
  using keyed_rank [OF assms] by (simp add: v8_sort_sort_key stable_sort_key)

lemma es_sort_v8_sort: "es_sort v8_sort"
  by (simp add: es_sort_def mset_v8_sort v8_sort_stable)

lemma good_project:
  "ept (project S idx r) \<noteq> NaN \<Longrightarrow> good (project S idx r)"
  by (simp add: good_def project_sel grid_calcEPT)

lemma ranked_by_stable_sort:
  assumes "es_sort (array_sort E)"
    and "resultSet data = Some rs" "headers rs = Some hs" "rowSet rs = Some rows"
    and "\<forall>r \<in> set rows. ept (project (StringToNumber E) (header_index hs) r) \<noteq> NaN"
  shows "getSeasonStats E now stamp data =
           Inr \<lparr> players = take 25 (stable_sort compare_ept
                     (map (project (StringToNumber E) (header_index hs)) rows)),
                 season = getNBASeason now, updatedAt = stamp \<rparr>"
    and "\<forall>p \<in> set (map (project (StringToNumber E) (header_index hs)) rows). good p"
proof -
  let ?ps = "map (project (StringToNumber E) (header_index hs)) rows"
  show g: "\<forall>p \<in> set ?ps. good p"
    using assms(5) by (auto intro: good_project)
  then have "consistent_comparator (SortCompare compare_ept) ?ps"
    by (rule consistent_compare_ept)
  then have "array_sort E compare_ept ?ps = stable_sort compare_ept ?ps"
    using assms(1) by (simp add: es_sort_def)
  then show "getSeasonStats E now stamp data =
           Inr \<lparr> players = take 25 (stable_sort compare_ept ?ps),
                 season = getNBASeason now, updatedAt = stamp \<rparr>"
    using assms(2-4) by (simp add: getSeasonStats_def Let_def)
qed

subsection \<open>Responses with null rows\<close>




section \<open>The concrete tables, evaluated\<close>

lemma short_index:
  "header_index short_headers ''PLAYER'' = Some 0"
  "header_index short_headers ''PTS'' = Some 1"
  "header_index short_headers ''TOV'' = Some 2"
  "header_index short_headers ''REB'' = None"
  "header_index short_headers ''AST'' = None"
  "header_index short_headers ''STL'' = None"
  "header_index short_headers ''BLK'' = None"
  by (simp_all add: header_index_def short_headers_def assign_def enumerate_eq_zip upt_rec)

lemma overflow: "fmul (Fin (3 * 2 ^ 1022)) (Fin (3 / 2)) = PInf"
  by (simp add: num_eval)

lemma entry_overflow:
  "name (entry (overflow_row n)) = Str n"
  "ept (entry (overflow_row n)) = NaN"
  by (simp_all add: entry_def project_sel cell_def stat_def short_index overflow_row_def
      calcEPT_def overflow, simp_all add: num_eval)

lemma entry_points_name: "name (entry (points_row n q)) = Str n"
  by (simp add: entry_def project_sel cell_def short_index points_row_def)

lemma entry_points_ept:
  "ept (entry (points_row n 1)) = Fin (3 / 2)"
  "ept (entry (points_row n 2)) = Fin 3"
  "ept (entry (points_row n 4)) = Fin 6"
  "ept (entry (points_row n 6)) = Fin 9"
  by (simp_all add: entry_def project_sel cell_def stat_def short_index points_row_def
      calcEPT_def num_eval)

lemma fsub_eval:
  "fsub x NaN = NaN" "fsub NaN x = NaN"
  "fsub (Fin 3) (Fin 6) = Fin (- 3)" "fsub (Fin 6) (Fin 3) = Fin 3"
  "fsub (Fin 3) (Fin 9) = Fin (- 6)" "fsub (Fin 9) (Fin 3) = Fin 6"
  "fsub (Fin 6) (Fin 9) = Fin (- 3)" "fsub (Fin 9) (Fin 6) = Fin 3"
  "fsub (Fin 6) (Fin 6) = Fin 0" "fsub (Fin 3) (Fin 3) = Fin 0" "fsub (Fin 9) (Fin 9) = Fin 0"
  "fsub (Fin (3 / 2)) (Fin (3 / 2)) = Fin 0"
  by (cases x; simp add: num_eval)+

lemmas sort_eval = SortCompare_def compare_ept_def entry_overflow entry_points_ept fsub_eval Let_def

lemma nan_sorted:
  "stable_sort compare_ept (map entry nan_rows) = [entry (overflow_row ''A''), entry (points_row ''B'' 1)]"
  by (simp add: stable_sort_def nan_rows_def sort_eval)

lemma tie_sorted:
  "stable_sort compare_ept (map entry tie_rows)
     = [entry (points_row ''B'' 6), entry (points_row ''A'' 4), entry (points_row ''C'' 4)]"
  by (simp add: stable_sort_def tie_rows_def sort_eval)

text \<open>
  With a \<open>NaN\<close> score, \<open>=\<close> is not transitive: \<open>SortCompare\<close> makes the score \<open>NaN\<close> equal to
  \<open>3\<close> and to \<open>6\<close>.
\<close>

lemma not_consistent:
  assumes "a \<in> set xs" "b \<in> set xs" "d \<in> set xs"
    and "is_zero (c a b)" "is_zero (c b d)" "\<not> is_zero (c a d)"
  shows "\<not> consistent_comparator c xs"
  unfolding consistent_comparator_def using assms by blast

lemma unstable_not_consistent:
  "\<not> consistent_comparator (SortCompare compare_ept) (map entry unstable_rows)"
  by (rule not_consistent [of "entry (points_row ''C'' 2)" _ "entry (overflow_row ''A'')"
        "entry (points_row ''E'' 4)"])
     (simp_all add: unstable_rows_def sort_eval is_zero_def)

lemma unstable_sorted:
  "v8_sort compare_ept (map entry unstable_rows)
     = [entry (overflow_row ''A''), entry (overflow_row ''B''), entry (points_row ''F'' 6),
        entry (points_row ''G'' 4), entry (points_row ''C'' 2), entry (overflow_row ''D''),
        entry (points_row ''E'' 4)]"
  by (simp add: unstable_rows_def sort_eval v8_insert_def v8_bsearch.simps)

lemma entry_eq: "project (\<lambda>s. NaN) (header_index short_headers) = entry"
  by (rule ext) (simp add: entry_def)

lemma stats_reference:
  "getSeasonStats reference_engine c s (table short_headers rows) =
     Inr \<lparr>players = take 25 (stable_sort compare_ept (map entry rows)),
          season = getNBASeason c, updatedAt = s\<rparr>"
  by (simp add: getSeasonStats_def table_def reference_engine_def entry_eq)

lemma stats_v8:
  "getSeasonStats v8_engine c s (table short_headers rows) =
     Inr \<lparr>players = take 25 (v8_sort compare_ept (map entry rows)),
          season = getNBASeason c, updatedAt = s\<rparr>"
  by (simp add: getSeasonStats_def table_def v8_engine_def entry_eq)

lemma es_sort_reference: "es_sort (array_sort reference_engine)"
  by (simp add: reference_engine_def es_sort_stable_sort)

lemma es_sort_v8_engine: "es_sort (array_sort v8_engine)"
  by (simp add: v8_engine_def es_sort_v8_sort)

lemma entry_points_neq: "n \<noteq> m \<Longrightarrow> entry (points_row n q) \<noteq> entry (points_row m q')"
  by (metis entry_points_name jsval.inject(3))

lemma idle_totals:
  "stat idle_row (header_index spec_headers) ''GP'' = Num (Fin 0)"
  by (simp add: stat_def cell_def spec_index idle_row_def)

lemma bench_totals:
  "stat bench_row (header_index spec_headers) ''GP'' = Num (Fin 5)"
  "stat bench_row (header_index spec_headers) ''PTS'' = Num (Fin 20)"
  "stat bench_row (header_index spec_headers) ''REB'' = Num (Fin 10)"
  "stat bench_row (header_index spec_headers) ''AST'' = Num (Fin 6)"
  "stat bench_row (header_index spec_headers) ''STL'' = Num (Fin 4)"
  "stat bench_row (header_index spec_headers) ''BLK'' = Num (Fin 2)"
  "stat bench_row (header_index spec_headers) ''TOV'' = Num (Fin 4)"
  by (simp_all add: stat_def cell_def spec_index bench_row_def)

lemma shot_index:
  "header_index shot_headers ''FGM'' = Some 0"
  "header_index shot_headers ''FGA'' = Some 1"
  "header_index shot_headers ''FG_PCT'' = Some 2"
  by (simp_all add: header_index_def shot_headers_def assign_def enumerate_eq_zip upt_rec)

lemma percent_eval:
  "round1 (fmul (Fin (3 / 8)) (Fin 100)) = Fin (75 / 2)"
  "fdiv (Fin 3) (Fin 8) = Fin (3 / 8)"
  by (simp_all add: num_eval)

text \<open>
  The rows whose values rounding changes.  The binary64 numbers are written as fractions:
  \<open>3602879701896397 / 2 ^ 55\<close> is \<open>0.1\<close>, \<open>5404319552844595 / 2 ^ 54\<close> is \<open>0.3\<close>, and
  \<open>5404319552844595 / 2 ^ 55\<close> is the quotient \<open>3 / 20\<close>, a little below \<open>0.15\<close>.
\<close>

lemma points_ept_rounded:
  "ept (project S (header_index short_headers) (points_row n (1 / 4))) = Fin (3602879701896397 / 2 ^ 53)"
  "ept (project S (header_index short_headers) (points_row n (3 / 4))) = Fin (2476979795053773 / 2 ^ 51)"
  "ept (project S (header_index short_headers) (points_row n (3 / 2))) = Fin (2589569785738035 / 2 ^ 50)"
  "ept (project S (header_index short_headers) (turnover_row n (1 / 2))) = Fin (- (3602879701896397 / 2 ^ 52))"
  by (simp_all add: project_sel cell_def stat_def short_index points_row_def turnover_row_def
      calcEPT_def num_eval)

lemma twenty_totals:
  "stat twenty_row (header_index spec_headers) ''GP'' = Num (Fin 20)"
  "stat twenty_row (header_index spec_headers) ''PTS'' = Num (Fin 3)"
  "stat twenty_row (header_index spec_headers) ''REB'' = Num (Fin 5)"
  "stat twenty_row (header_index spec_headers) ''AST'' = Num (Fin 7)"
  "stat twenty_row (header_index spec_headers) ''STL'' = Num (Fin 19)"
  "stat twenty_row (header_index spec_headers) ''BLK'' = Num (Fin 1)"
  "stat twenty_row (header_index spec_headers) ''TOV'' = Num (Fin 2)"
  by (simp_all add: stat_def cell_def spec_index twenty_row_def)

lemma starter_totals:
  "stat starter_row (header_index spec_headers) ''GP'' = Num (Fin 76)"
  "stat starter_row (header_index spec_headers) ''PTS'' = Num (Fin 2484)"
  "stat starter_row (header_index spec_headers) ''REB'' = Num (Fin 961)"
  "stat starter_row (header_index spec_headers) ''AST'' = Num (Fin 445)"
  "stat starter_row (header_index spec_headers) ''STL'' = Num (Fin 112)"
  "stat starter_row (header_index spec_headers) ''BLK'' = Num (Fin 62)"
  "stat starter_row (header_index spec_headers) ''TOV'' = Num (Fin 256)"
  by (simp_all add: stat_def cell_def spec_index starter_row_def)

lemma twenty_quotients:
  "fdiv (Fin 3) (Fin 20) = Fin (5404319552844595 / 2 ^ 55)"
  "fdiv (Fin 5) (Fin 20) = Fin (1 / 4)"
  "fdiv (Fin 7) (Fin 20) = Fin (3152519739159347 / 2 ^ 53)"
  "fdiv (Fin 19) (Fin 20) = Fin (4278419646001971 / 2 ^ 52)"
  by (simp_all add: num_eval)

lemma twenty_rates:
  "round1 (fdiv (Fin 3) (Fin 20)) = Fin (3602879701896397 / 2 ^ 55)"
  "round1 (fdiv (Fin 5) (Fin 20)) = Fin (5404319552844595 / 2 ^ 54)"
  "round1 (fdiv (Fin 7) (Fin 20)) = Fin (5404319552844595 / 2 ^ 54)"
  "round1 (fdiv (Fin 19) (Fin 20)) = Fin (8106479329266893 / 2 ^ 53)"
  "round1 (fdiv (Fin 1) (Fin 20)) = Fin (3602879701896397 / 2 ^ 55)"
  "round1 (fdiv (Fin 2) (Fin 20)) = Fin (3602879701896397 / 2 ^ 55)"
  by (simp_all add: num_eval)

lemma starter_rates:
  "round1 (fdiv (Fin 2484) (Fin 76)) = Fin (2301057934609613 / 2 ^ 46)"
  "round1 (fdiv (Fin 961) (Fin 76)) = Fin (7093169413108531 / 2 ^ 49)"
  "round1 (fdiv (Fin 445) (Fin 76)) = Fin (3321404725185741 / 2 ^ 49)"
  "round1 (fdiv (Fin 112) (Fin 76)) = Fin (3 / 2)"
  "round1 (fdiv (Fin 62) (Fin 76)) = Fin (3602879701896397 / 2 ^ 52)"
  "round1 (fdiv (Fin 256) (Fin 76)) = Fin (7656119366529843 / 2 ^ 51)"
  by (simp_all add: num_eval)

lemma starter_ept:
  "calcEPT S (Num (Fin 2484)) (Num (Fin 961)) (Num (Fin 445)) (Num (Fin 112)) (Num (Fin 62)) (Num (Fin 256)) = Fin 5973"
  by (simp add: calcEPT_def num_eval)

lemma percent_rounded:
  "fdiv (Fin 860) (Fin 1656) = Fin (4677651786882399 / 2 ^ 53)"
  "fmul (Fin (4677651786882399 / 2 ^ 53)) (Fin 100) = Fin (1827207729250937 / 2 ^ 45)"
  "round1 (Fin (1827207729250937 / 2 ^ 45)) = Fin (7304275645641523 / 2 ^ 47)"
  "round1 (fmul (Fin (4674736413210575 / 2 ^ 53)) (Fin 100)) = Fin (7304275645641523 / 2 ^ 47)"
  "round1 (fmul (Fin (1131529406376837 / 2 ^ 50)) (Fin 100)) = Fin (201 / 2)"
  by (simp_all add: num_eval)

lemma wide_totals:
  "stat wide_row (header_index spec_headers) ''PTS'' = Num (Fin (2 ^ 54))"
  "stat wide_row (header_index spec_headers) ''REB'' = Num (Fin 1)"
  "stat wide_row (header_index spec_headers) ''AST'' = Num (Fin 1)"
  "stat wide_row (header_index spec_headers) ''STL'' = Num (Fin 0)"
  "stat wide_row (header_index spec_headers) ''BLK'' = Num (Fin 0)"
  "stat wide_row (header_index spec_headers) ''TOV'' = Num (Fin 0)"
  by (simp_all add: stat_def cell_def spec_index wide_row_def)

lemma wide_ept:
  "calcEPT S (Num (Fin (2 ^ 54))) (Num (Fin 1)) (Num (Fin 1)) (Num (Fin 0)) (Num (Fin 0))
     (Num (Fin 0)) = Fin (3 * 2 ^ 53)"
  by (simp add: calcEPT_def num_eval)

lemma wide_other_order:
  "fadd (fmul (Fin (2 ^ 54)) (Fin (3 / 2))) (fadd (fmul (Fin 1) (Fin (3 / 2))) (fmul (Fin 1) (Fin (3 / 2))))
     = Fin (3 * 2 ^ 53 + 4)"
  by (simp add: num_eval)

lemma tie_numbers:
  "\<forall>r \<in> set tie_rows. ept (project (StringToNumber reference_engine)
      (header_index short_headers) r) \<noteq> NaN"
  by (simp add: tie_rows_def reference_engine_def entry_eq entry_points_ept)

lemma overflow_row_ept: "ept (project S (header_index short_headers) (overflow_row n)) = NaN"
  by (simp add: project_sel cell_def stat_def short_index overflow_row_def calcEPT_def overflow,
      simp add: num_eval)

lemma two_of_mset:
  assumes "mset xs = mset [a, b]"
  shows "xs = [a, b] \<or> xs = [b, a]"
proof -
  from assms have "length xs = length [a, b]" by (rule mset_eq_length)
  then obtain x y where xy: "xs = [x, y]"
    by (cases xs; cases "tl xs") auto
  with assms have "{#x, y#} = {#a, b#}" by simp
  then have "(x = a \<and> y = b) \<or> (x = b \<and> y = a)"
    by (auto simp: add_eq_conv_ex)
  with xy show ?thesis by auto
qed

text \<open>Whatever the engine, the two records of \<open>nan_rows\<close> are not returned sorted.\<close>

lemma nan_rows_unsorted:
  assumes "es_sort (array_sort E)"
  shows "\<exists>res. getSeasonStats E now stamp (table short_headers nan_rows) = Inr res \<and>
               \<not> sorted_wrt (\<lambda>a b. js_ge (ept a) (ept b)) (players res)"
proof -
  let ?a = "project (StringToNumber E) (header_index short_headers) (overflow_row ''A'')"
  let ?b = "project (StringToNumber E) (header_index short_headers) (points_row ''B'' 1)"
  let ?xs = "array_sort E compare_ept [?a, ?b]"
  have "mset ?xs = mset [?a, ?b]"
    using assms by (simp add: es_sort_def)
  then have "?xs = [?a, ?b] \<or> ?xs = [?b, ?a]" by (rule two_of_mset)
  moreover have "\<not> js_ge (ept ?a) y" "\<not> js_ge y (ept ?a)" for y
    by (cases y; simp add: overflow_row_ept js_ge_def js_eq_def)+
  ultimately have "\<not> sorted_wrt (\<lambda>a b. js_ge (ept a) (ept b)) (take 25 ?xs)"
    by auto
  then show ?thesis
    by (simp add: getSeasonStats_def table_def nan_rows_def Let_def)
qed

section \<open>The claims\<close>

text \<open>
  C1.  The composite score of every projected row is the sum
  \<open>points * 1.5 + rebounds * 1.5 + assists * 1.5 + steals * 3 + blocks * 3 - turnovers * 1.5\<close>
  of the season totals of the record, accumulated from left to right in binary64 arithmetic
  and rounded to one decimal: it is \<open>round1\<close> of the sum, which is the sum rounded to one
  decimal in the sense of \<open>rounded_1_decimal\<close>.  When the six totals are integers of magnitude
  at most \<open>2 ^ 40\<close>, no step rounds, and the score is the weighted sum itself.  For the headers
  \<open>PLAYER, TEAM, GP, PTS, REB, AST, STL, BLK, TOV\<close> with the row \<open>A, X, 2, 20, 10, 6, 4, 2, 4\<close>
  the record has \<open>ept = 66\<close>, \<open>ppg = 10\<close>, \<open>rpg = 5\<close>, \<open>apg = 3\<close>, \<open>spg = 2\<close>, \<open>bpg = 1\<close> and
  \<open>topg = 2\<close>, and the season row has the score \<open>5973\<close>.  In the wide row the additions from
  left to right give \<open>3 * 2 ^ 53\<close>; taken in another order they give \<open>4\<close> more
  (\<open>wide_other_order\<close>).  Sums that the rounding changes: \<open>0.375\<close> gives \<open>0.4\<close>, \<open>1.125\<close> gives
  \<open>1.1\<close>, the midpoint \<open>2.25\<close> gives \<open>2.3\<close>, and \<open>-0.75\<close> gives \<open>-0.8\<close>.
\<close>

theorem ept_formula:
  "(let s = fsub (fadd (fadd (fadd (fadd
       (fmul (ToNumber S (pts (project S idx r))) (Fin (3 / 2)))
       (fmul (ToNumber S (reb (project S idx r))) (Fin (3 / 2))))
       (fmul (ToNumber S (ast (project S idx r))) (Fin (3 / 2))))
       (fmul (ToNumber S (stl (project S idx r))) (Fin 3)))
       (fmul (ToNumber S (blk (project S idx r))) (Fin 3)))
       (fmul (ToNumber S (tov (project S idx r))) (Fin (3 / 2)))
    in ept (project S idx r) = round1 s \<and> rounded_1_decimal s (ept (project S idx r)))
   \<and> (pts (project S idx r) = Num (Fin (of_int a)) \<and> \<bar>a\<bar> \<le> 2 ^ 40 \<and>
       reb (project S idx r) = Num (Fin (of_int b)) \<and> \<bar>b\<bar> \<le> 2 ^ 40 \<and>
       ast (project S idx r) = Num (Fin (of_int c)) \<and> \<bar>c\<bar> \<le> 2 ^ 40 \<and>
       stl (project S idx r) = Num (Fin (of_int d)) \<and> \<bar>d\<bar> \<le> 2 ^ 40 \<and>
       blk (project S idx r) = Num (Fin (of_int e)) \<and> \<bar>e\<bar> \<le> 2 ^ 40 \<and>
       tov (project S idx r) = Num (Fin (of_int f)) \<and> \<bar>f\<bar> \<le> 2 ^ 40 \<longrightarrow>
       ept (project S idx r) =
         Fin (of_int a * 3 / 2 + of_int b * 3 / 2 + of_int c * 3 / 2 + of_int d * 3 +
              of_int e * 3 - of_int f * 3 / 2))
   \<and> (let p = project S (header_index spec_headers) spec_row
      in ept p = Fin 66 \<and> ppg p = Fin 10 \<and> rpg p = Fin 5 \<and> apg p = Fin 3 \<and>
         spg p = Fin 2 \<and> bpg p = Fin 1 \<and> topg p = Fin 2)
   \<and> ept (project S (header_index spec_headers) starter_row) = Fin 5973
   \<and> ept (project S (header_index spec_headers) wide_row) = Fin (3 * 2 ^ 53)
   \<and> ept (project S (header_index short_headers) (points_row n (1 / 4)))
       = Fin (3602879701896397 / 2 ^ 53)
   \<and> ept (project S (header_index short_headers) (points_row n (3 / 4)))
       = Fin (2476979795053773 / 2 ^ 51)
   \<and> ept (project S (header_index short_headers) (points_row n (3 / 2)))
       = Fin (2589569785738035 / 2 ^ 50)
   \<and> ept (project S (header_index short_headers) (turnover_row n (1 / 2)))
       = Fin (- (3602879701896397 / 2 ^ 52))"
proof (intro conjI)
  have "ept (project S idx r) =
     round1 (fsub (fadd (fadd (fadd (fadd
       (fmul (ToNumber S (pts (project S idx r))) (Fin (3 / 2)))
       (fmul (ToNumber S (reb (project S idx r))) (Fin (3 / 2))))
       (fmul (ToNumber S (ast (project S idx r))) (Fin (3 / 2))))
       (fmul (ToNumber S (stl (project S idx r))) (Fin 3)))
       (fmul (ToNumber S (blk (project S idx r))) (Fin 3)))
       (fmul (ToNumber S (tov (project S idx r))) (Fin (3 / 2))))"
    by (simp only: project_sel calcEPT_def)
  then show "let s = fsub (fadd (fadd (fadd (fadd
       (fmul (ToNumber S (pts (project S idx r))) (Fin (3 / 2)))
       (fmul (ToNumber S (reb (project S idx r))) (Fin (3 / 2))))
       (fmul (ToNumber S (ast (project S idx r))) (Fin (3 / 2))))
       (fmul (ToNumber S (stl (project S idx r))) (Fin 3)))
       (fmul (ToNumber S (blk (project S idx r))) (Fin 3)))
       (fmul (ToNumber S (tov (project S idx r))) (Fin (3 / 2)))
    in ept (project S idx r) = round1 s \<and> rounded_1_decimal s (ept (project S idx r))"
    by (simp only: Let_def round1_rounded simp_thms)
next
  show "pts (project S idx r) = Num (Fin (of_int a)) \<and> \<bar>a\<bar> \<le> 2 ^ 40 \<and>
       reb (project S idx r) = Num (Fin (of_int b)) \<and> \<bar>b\<bar> \<le> 2 ^ 40 \<and>
       ast (project S idx r) = Num (Fin (of_int c)) \<and> \<bar>c\<bar> \<le> 2 ^ 40 \<and>
       stl (project S idx r) = Num (Fin (of_int d)) \<and> \<bar>d\<bar> \<le> 2 ^ 40 \<and>
       blk (project S idx r) = Num (Fin (of_int e)) \<and> \<bar>e\<bar> \<le> 2 ^ 40 \<and>
       tov (project S idx r) = Num (Fin (of_int f)) \<and> \<bar>f\<bar> \<le> 2 ^ 40 \<longrightarrow>
       ept (project S idx r) =
         Fin (of_int a * 3 / 2 + of_int b * 3 / 2 + of_int c * 3 / 2 + of_int d * 3 +
              of_int e * 3 - of_int f * 3 / 2)"
  proof
    assume h: "pts (project S idx r) = Num (Fin (of_int a)) \<and> \<bar>a\<bar> \<le> 2 ^ 40 \<and>
       reb (project S idx r) = Num (Fin (of_int b)) \<and> \<bar>b\<bar> \<le> 2 ^ 40 \<and>
       ast (project S idx r) = Num (Fin (of_int c)) \<and> \<bar>c\<bar> \<le> 2 ^ 40 \<and>
       stl (project S idx r) = Num (Fin (of_int d)) \<and> \<bar>d\<bar> \<le> 2 ^ 40 \<and>
       blk (project S idx r) = Num (Fin (of_int e)) \<and> \<bar>e\<bar> \<le> 2 ^ 40 \<and>
       tov (project S idx r) = Num (Fin (of_int f)) \<and> \<bar>f\<bar> \<le> 2 ^ 40"
    then have t: "stat r idx ''PTS'' = Num (Fin (of_int a))" "stat r idx ''REB'' = Num (Fin (of_int b))"
      "stat r idx ''AST'' = Num (Fin (of_int c))" "stat r idx ''STL'' = Num (Fin (of_int d))"
      "stat r idx ''BLK'' = Num (Fin (of_int e))" "stat r idx ''TOV'' = Num (Fin (of_int f))"
      by (simp_all only: project_sel)
    from h have "\<bar>a\<bar> \<le> 2 ^ 40" "\<bar>b\<bar> \<le> 2 ^ 40" "\<bar>c\<bar> \<le> 2 ^ 40"
      "\<bar>d\<bar> \<le> 2 ^ 40" "\<bar>e\<bar> \<le> 2 ^ 40" "\<bar>f\<bar> \<le> 2 ^ 40"
      by blast+
    then show "ept (project S idx r) =
         Fin (of_int a * 3 / 2 + of_int b * 3 / 2 + of_int c * 3 / 2 + of_int d * 3 +
              of_int e * 3 - of_int f * 3 / 2)"
      by (simp only: project_sel t calcEPT_def ToNumber.simps exact_score)
  qed
next
  show "let p = project S (header_index spec_headers) spec_row
      in ept p = Fin 66 \<and> ppg p = Fin 10 \<and> rpg p = Fin 5 \<and> apg p = Fin 3 \<and>
         spg p = Fin 2 \<and> bpg p = Fin 1 \<and> topg p = Fin 2"
    by (simp only: Let_def project_sel spec_totals spec_ept spec_rates simp_thms)
next
  show "ept (project S (header_index spec_headers) starter_row) = Fin 5973"
    by (simp only: project_sel starter_totals starter_ept)
next
  show "ept (project S (header_index spec_headers) wide_row) = Fin (3 * 2 ^ 53)"
    by (simp only: project_sel wide_totals wide_ept)
qed (rule points_ept_rounded)+

text \<open>The worked example: its totals are integers, and the score is their weighted sum.\<close>

theorem ept_formula_witness:
  "pts (project (\<lambda>s. NaN) (header_index spec_headers) spec_row) = Num (Fin (of_int 20))
   \<and> reb (project (\<lambda>s. NaN) (header_index spec_headers) spec_row) = Num (Fin (of_int 10))
   \<and> ast (project (\<lambda>s. NaN) (header_index spec_headers) spec_row) = Num (Fin (of_int 6))
   \<and> stl (project (\<lambda>s. NaN) (header_index spec_headers) spec_row) = Num (Fin (of_int 4))
   \<and> blk (project (\<lambda>s. NaN) (header_index spec_headers) spec_row) = Num (Fin (of_int 2))
   \<and> tov (project (\<lambda>s. NaN) (header_index spec_headers) spec_row) = Num (Fin (of_int 4))
   \<and> \<bar>20 :: int\<bar> \<le> 2 ^ 40
   \<and> ept (project (\<lambda>s. NaN) (header_index spec_headers) spec_row)
       = Fin (20 * 3 / 2 + 10 * 3 / 2 + 6 * 3 / 2 + 4 * 3 + 2 * 3 - 4 * 3 / 2)
   \<and> (20 * 3 / 2 + 10 * 3 / 2 + 6 * 3 / 2 + 4 * 3 + 2 * 3 - 4 * 3 / 2 :: rat) = 66"
proof -
  let ?p = "project (\<lambda>s. NaN) (header_index spec_headers) spec_row"
  have t: "pts ?p = Num (Fin (of_int 20))" "reb ?p = Num (Fin (of_int 10))"
    "ast ?p = Num (Fin (of_int 6))" "stl ?p = Num (Fin (of_int 4))"
    "blk ?p = Num (Fin (of_int 2))" "tov ?p = Num (Fin (of_int 4))"
    by (simp_all add: project_sel spec_totals)
  have b: "\<bar>20 :: int\<bar> \<le> 2 ^ 40" "\<bar>10 :: int\<bar> \<le> 2 ^ 40" "\<bar>6 :: int\<bar> \<le> 2 ^ 40"
    "\<bar>4 :: int\<bar> \<le> 2 ^ 40" "\<bar>2 :: int\<bar> \<le> 2 ^ 40"
    by simp_all
  from ept_formula [where S = "\<lambda>s. NaN" and idx = "header_index spec_headers" and r = spec_row
      and a = 20 and b = 10 and c = 6 and d = 4 and e = 2 and f = 4] t b
  have "ept ?p = Fin (of_int 20 * 3 / 2 + of_int 10 * 3 / 2 + of_int 6 * 3 / 2 + of_int 4 * 3 +
              of_int 2 * 3 - of_int 4 * 3 / 2)"
    by blast
  then have "ept ?p = Fin (20 * 3 / 2 + 10 * 3 / 2 + 6 * 3 / 2 + 4 * 3 + 2 * 3 - 4 * 3 / 2)"
    by simp
  with t b(1) show ?thesis by simp
qed




text \<open>
  C3.  For every current date (the clock shows a year from \<open>0\<close> on), the season resolver
  returns the label of the start year, which is the current year from October on (month
  index \<open>9\<close>) and the year before otherwise.  November 2025, March 2026 and September 2026 give \<open>2025-26\<close>, October
  2026 gives \<open>2026-27\<close>, and the start year 2099 gives the end label \<open>00\<close>.
\<close>

theorem season_label_rule:
  assumes "0 \<le> getFullYear now"
  shows "getNBASeason now =
           season_label (if 9 \<le> getMonth now then getFullYear now else getFullYear now - 1)
       \<and> getNBASeason \<lparr>getFullYear = 2025, getMonth = 10\<rparr> = ''2025-26''
       \<and> getNBASeason \<lparr>getFullYear = 2026, getMonth = 2\<rparr> = ''2025-26''
       \<and> getNBASeason \<lparr>getFullYear = 2026, getMonth = 8\<rparr> = ''2025-26''
       \<and> getNBASeason \<lparr>getFullYear = 2026, getMonth = 9\<rparr> = ''2026-27''
       \<and> getNBASeason \<lparr>getFullYear = 2099, getMonth = 9\<rparr> = ''2099-00''"
proof (intro conjI)
  let ?Y = "if 9 \<le> getMonth now then getFullYear now else getFullYear now - 1"
  have "0 \<le> ?Y + 1" using assms by simp
  from end_year_label [OF this] show "getNBASeason now = season_label ?Y"
    by (simp add: getNBASeason_def season_label_def Let_def)
qed (simp_all add: str_eval)

text \<open>January 2100 lies in the season that started in 2099.\<close>

theorem season_label_rule_witness:
  "(0::int) \<le> 2100 \<and> getNBASeason \<lparr>getFullYear = 2100, getMonth = 0\<rparr> = ''2099-00''"
proof -
  have h: "0 \<le> getFullYear \<lparr>getFullYear = 2100, getMonth = 0\<rparr>" by simp
  from season_label_rule [OF h]
  have "getNBASeason \<lparr>getFullYear = 2100, getMonth = 0\<rparr> = season_label 2099" by simp
  then show ?thesis by (simp add: season_label_def two_digits_def str_eval)
qed

text \<open>
  C4 (amended).  For every table none of whose projected composite scores is \<open>NaN\<close>, the
  returned players are sorted non-increasing by \<open>ept\<close>: each record's score is greater than
  or equal to that of every later record.
\<close>

theorem ranking_sorted:
  assumes "es_sort (array_sort E)"
    and "resultSet data = Some rs" "headers rs = Some hs" "rowSet rs = Some rows"
    and "\<forall>r \<in> set rows. ept (project (StringToNumber E) (header_index hs) r) \<noteq> NaN"
  shows "\<exists>res. getSeasonStats E now stamp data = Inr res \<and>
               sorted_wrt (\<lambda>a b. js_ge (ept a) (ept b)) (players res)"
proof -
  let ?ps = "map (project (StringToNumber E) (header_index hs)) rows"
  let ?out = "take 25 (stable_sort compare_ept ?ps)"
  note r = ranked_by_stable_sort [OF assms]
  have "sorted_wrt (\<lambda>a b. \<not> js_lt (ept a) (ept b)) (stable_sort compare_ept ?ps)"
    using r(2) by (rule sorted_stable_sort_ept)
  then have s: "sorted_wrt (\<lambda>a b. \<not> js_lt (ept a) (ept b)) ?out"
    by (rule sorted_wrt_take)
  have "set ?out \<subseteq> set ?ps"
    using set_take_subset [of 25 "stable_sort compare_ept ?ps"] by (simp only: set_stable_sort)
  then have "\<forall>p \<in> set ?out. ept p \<noteq> NaN"
    using r(2) by (auto simp: good_def)
  then have "sorted_wrt (\<lambda>a b. js_ge (ept a) (ept b)) ?out"
    using s by (auto intro: sorted_wrt_mono_rel [rotated] simp: js_ge_iff)
  then show ?thesis by (simp add: r(1))
qed

text \<open>The table of three rows with the scores \<open>6\<close>, \<open>9\<close> and \<open>6\<close>.\<close>

theorem ranking_sorted_witness:
  "es_sort (array_sort reference_engine)
   \<and> map (\<lambda>r. ept (entry r)) tie_rows = [Fin 6, Fin 9, Fin 6]
   \<and> (\<exists>res. getSeasonStats reference_engine sample_clock sample_stamp
               (table short_headers tie_rows) = Inr res \<and>
             sorted_wrt (\<lambda>a b. js_ge (ept a) (ept b)) (players res))"
proof -
  from ranking_sorted [OF es_sort_reference _ _ _ tie_numbers,
      where data = "table short_headers tie_rows"
        and rs = "\<lparr>headers = Some short_headers, rowSet = Some tie_rows\<rparr>"
        and now = sample_clock and stamp = sample_stamp]
  have "\<exists>res. getSeasonStats reference_engine sample_clock sample_stamp
               (table short_headers tie_rows) = Inr res \<and>
             sorted_wrt (\<lambda>a b. js_ge (ept a) (ept b)) (players res)"
    by (simp add: table_def)
  moreover have "map (\<lambda>r. ept (entry r)) tie_rows = [Fin 6, Fin 9, Fin 6]"
    by (simp add: tie_rows_def entry_points_ept)
  ultimately show ?thesis using es_sort_reference by blast
qed

text \<open>
  The claim as stated fails on a table with a score that is \<open>NaN\<close>: the comparator returns
  \<open>NaN\<close> on every pair with that record, the sort leaves the two records as they are, and
  \<open>NaN\<close> is not greater than or equal to \<open>1.5\<close>.  No arrangement of the two records is sorted
  (\<open>nan_rows_unsorted\<close>), so the failure does not depend on the engine's sort.
\<close>

theorem ranking_sorted_counterexample:
  "es_sort (array_sort reference_engine)
   \<and> (case getSeasonStats reference_engine sample_clock sample_stamp
             (table short_headers nan_rows) of
         Inl e \<Rightarrow> False
       | Inr res \<Rightarrow>
           map name (players res) = [Str ''A'', Str ''B''] \<and>
           map ept (players res) = [NaN, Fin (3 / 2)] \<and>
           \<not> sorted_wrt (\<lambda>a b. js_ge (ept a) (ept b)) (players res))"
  by (simp add: es_sort_reference stats_reference nan_sorted entry_overflow entry_points_ept
      entry_points_name js_ge_def js_eq_def)

text \<open>
  C5.  For every table with \<open>N\<close> rows the normalizer returns \<open>min N 25\<close> records: the first
  25 of the sorted records, and all of them when there are fewer.
\<close>

theorem top_25:
  assumes "es_sort (array_sort E)"
    and "resultSet data = Some rs" "headers rs = Some hs" "rowSet rs = Some rows"
  shows "\<exists>res. getSeasonStats E now stamp data = Inr res \<and>
               length (players res) = min (length rows) 25 \<and>
               players res = take 25 (array_sort E compare_ept
                  (map (project (StringToNumber E) (header_index hs)) rows))"
proof -
  let ?ps = "map (project (StringToNumber E) (header_index hs)) rows"
  have "mset (array_sort E compare_ept ?ps) = mset ?ps"
    using assms(1) by (simp add: es_sort_def)
  then have "length (array_sort E compare_ept ?ps) = length ?ps"
    by (rule mset_eq_length)
  then show ?thesis
    using assms(2-4) by (simp add: getSeasonStats_def Let_def)
qed

text \<open>A table of thirty rows, and the table of three rows.\<close>

theorem top_25_witness:
  "es_sort (array_sort reference_engine)
   \<and> (\<exists>res. getSeasonStats reference_engine sample_clock sample_stamp
               (table short_headers (replicate 30 (points_row ''A'' 4))) = Inr res \<and>
             length (players res) = 25)
   \<and> (\<exists>res. getSeasonStats reference_engine sample_clock sample_stamp
               (table short_headers tie_rows) = Inr res \<and> length (players res) = 3)"
proof -
  note t = top_25 [OF es_sort_reference, where now = sample_clock and stamp = sample_stamp
      and data = "table short_headers rows"
      and rs = "\<lparr>headers = Some short_headers, rowSet = Some rows\<rparr>"
      and hs = short_headers and rows = rows for rows]
  from t [of "replicate 30 (points_row ''A'' 4)"]
  have a: "\<exists>res. getSeasonStats reference_engine sample_clock sample_stamp
               (table short_headers (replicate 30 (points_row ''A'' 4))) = Inr res \<and>
             length (players res) = 25"
    by (auto simp: table_def)
  from t [of tie_rows]
  have b: "\<exists>res. getSeasonStats reference_engine sample_clock sample_stamp
               (table short_headers tie_rows) = Inr res \<and> length (players res) = 3"
    by (auto simp: table_def tie_rows_def)
  from es_sort_reference a b show ?thesis by blast
qed

text \<open>
  C6.  For a row whose games played are \<open>0\<close> (a zero of either sign; a missing or null cell
  counts as \<open>0\<close>), the six per-game rates are \<open>0\<close> whatever the totals are; when the games
  played are a number above \<open>0\<close>, each rate is the total divided by the games played (in
  binary64 arithmetic) and rounded to one decimal: it is \<open>round1\<close> of the quotient, which is the
  quotient rounded in the sense of \<open>rounded_1_decimal\<close>.  The projection is a total function with
  no error result: the division never raises.  With twenty games the totals \<open>3\<close>, \<open>5\<close>, \<open>7\<close>,
  \<open>19\<close>, \<open>1\<close> and \<open>2\<close> give the rates \<open>0.1\<close>, \<open>0.3\<close>, \<open>0.3\<close>, \<open>0.9\<close>, \<open>0.1\<close> and \<open>0.1\<close>; the season row
  has the rates \<open>32.7\<close>, \<open>12.6\<close>, \<open>5.9\<close>, \<open>1.5\<close>, \<open>0.8\<close> and \<open>3.4\<close>.
\<close>

theorem per_game_rates:
  assumes "p = project S idx r"
  shows "(gp p = Num g \<and> is_zero g \<longrightarrow>
            ppg p = Fin 0 \<and> rpg p = Fin 0 \<and> apg p = Fin 0 \<and>
            spg p = Fin 0 \<and> bpg p = Fin 0 \<and> topg p = Fin 0)
       \<and> (gp p = Num g \<and> js_lt (Fin 0) g \<longrightarrow>
            ppg p = round1 (fdiv (ToNumber S (pts p)) g) \<and>
            rpg p = round1 (fdiv (ToNumber S (reb p)) g) \<and>
            apg p = round1 (fdiv (ToNumber S (ast p)) g) \<and>
            spg p = round1 (fdiv (ToNumber S (stl p)) g) \<and>
            bpg p = round1 (fdiv (ToNumber S (blk p)) g) \<and>
            topg p = round1 (fdiv (ToNumber S (tov p)) g) \<and>
            rounded_1_decimal (fdiv (ToNumber S (pts p)) g) (ppg p) \<and>
            rounded_1_decimal (fdiv (ToNumber S (reb p)) g) (rpg p) \<and>
            rounded_1_decimal (fdiv (ToNumber S (ast p)) g) (apg p) \<and>
            rounded_1_decimal (fdiv (ToNumber S (stl p)) g) (spg p) \<and>
            rounded_1_decimal (fdiv (ToNumber S (blk p)) g) (bpg p) \<and>
            rounded_1_decimal (fdiv (ToNumber S (tov p)) g) (topg p))
       \<and> (let d = project S (header_index spec_headers) twenty_row
          in ppg d = Fin (3602879701896397 / 2 ^ 55) \<and> rpg d = Fin (5404319552844595 / 2 ^ 54) \<and>
             apg d = Fin (5404319552844595 / 2 ^ 54) \<and> spg d = Fin (8106479329266893 / 2 ^ 53) \<and>
             bpg d = Fin (3602879701896397 / 2 ^ 55) \<and> topg d = Fin (3602879701896397 / 2 ^ 55))
       \<and> (let e = project S (header_index spec_headers) starter_row
          in ppg e = Fin (2301057934609613 / 2 ^ 46) \<and> rpg e = Fin (7093169413108531 / 2 ^ 49) \<and>
             apg e = Fin (3321404725185741 / 2 ^ 49) \<and> spg e = Fin (3 / 2) \<and>
             bpg e = Fin (3602879701896397 / 2 ^ 52) \<and> topg e = Fin (7656119366529843 / 2 ^ 51))"
proof (intro conjI impI)
  assume "gp p = Num g \<and> is_zero g"
  then have z: "stat r idx ''GP'' = Num g" "is_zero g" by (simp_all add: assms project_sel)
  show "ppg p = Fin 0" "rpg p = Fin 0" "apg p = Fin 0" "spg p = Fin 0" "bpg p = Fin 0"
    "topg p = Fin 0"
    by (simp_all add: assms project_sel z per_game_def)
next
  assume "gp p = Num g \<and> js_lt (Fin 0) g"
  then have g: "stat r idx ''GP'' = Num g" and pos: "js_lt (Fin 0) g"
    by (simp_all add: assms project_sel)
  from pos have t: "ToBoolean (Num g)" by (cases g) (auto simp: is_zero_def)
  show r: "ppg p = round1 (fdiv (ToNumber S (pts p)) g)"
    "rpg p = round1 (fdiv (ToNumber S (reb p)) g)"
    "apg p = round1 (fdiv (ToNumber S (ast p)) g)"
    "spg p = round1 (fdiv (ToNumber S (stl p)) g)"
    "bpg p = round1 (fdiv (ToNumber S (blk p)) g)"
    "topg p = round1 (fdiv (ToNumber S (tov p)) g)"
    using t by (simp_all add: assms project_sel g per_game_def)
  show "rounded_1_decimal (fdiv (ToNumber S (pts p)) g) (ppg p)"
    "rounded_1_decimal (fdiv (ToNumber S (reb p)) g) (rpg p)"
    "rounded_1_decimal (fdiv (ToNumber S (ast p)) g) (apg p)"
    "rounded_1_decimal (fdiv (ToNumber S (stl p)) g) (spg p)"
    "rounded_1_decimal (fdiv (ToNumber S (blk p)) g) (bpg p)"
    "rounded_1_decimal (fdiv (ToNumber S (tov p)) g) (topg p)"
    by (simp_all only: r round1_rounded)
next
  have t: "ToBoolean (Num (Fin 20))" by (simp add: is_zero_def)
  show "let d = project S (header_index spec_headers) twenty_row
          in ppg d = Fin (3602879701896397 / 2 ^ 55) \<and> rpg d = Fin (5404319552844595 / 2 ^ 54) \<and>
             apg d = Fin (5404319552844595 / 2 ^ 54) \<and> spg d = Fin (8106479329266893 / 2 ^ 53) \<and>
             bpg d = Fin (3602879701896397 / 2 ^ 55) \<and> topg d = Fin (3602879701896397 / 2 ^ 55)"
    by (simp only: Let_def project_sel twenty_totals per_game_def t if_True ToNumber.simps
        twenty_rates simp_thms)
next
  have t: "ToBoolean (Num (Fin 76))" by (simp add: is_zero_def)
  show "let e = project S (header_index spec_headers) starter_row
          in ppg e = Fin (2301057934609613 / 2 ^ 46) \<and> rpg e = Fin (7093169413108531 / 2 ^ 49) \<and>
             apg e = Fin (3321404725185741 / 2 ^ 49) \<and> spg e = Fin (3 / 2) \<and>
             bpg e = Fin (3602879701896397 / 2 ^ 52) \<and> topg e = Fin (7656119366529843 / 2 ^ 51)"
    by (simp only: Let_def project_sel starter_totals per_game_def t if_True ToNumber.simps
        starter_rates simp_thms)
qed

text \<open>
  A row with no games played, and the row of twenty games: the quotient \<open>3 / 20\<close> is a
  little below \<open>0.15\<close> in binary64 and is rounded to \<open>0.1\<close>.
\<close>

theorem per_game_rates_witness:
  "gp (project (\<lambda>s. NaN) (header_index spec_headers) idle_row) = Num (Fin 0)
   \<and> is_zero (Fin 0)
   \<and> ppg (project (\<lambda>s. NaN) (header_index spec_headers) idle_row) = Fin 0
   \<and> topg (project (\<lambda>s. NaN) (header_index spec_headers) idle_row) = Fin 0
   \<and> gp (project (\<lambda>s. NaN) (header_index spec_headers) twenty_row) = Num (Fin 20)
   \<and> js_lt (Fin 0) (Fin 20)
   \<and> fdiv (Fin 3) (Fin 20) = Fin (5404319552844595 / 2 ^ 55)
   \<and> ppg (project (\<lambda>s. NaN) (header_index spec_headers) twenty_row)
       = Fin (3602879701896397 / 2 ^ 55)
   \<and> rounded_1_decimal (Fin (5404319552844595 / 2 ^ 55)) (Fin (3602879701896397 / 2 ^ 55))"
proof -
  let ?i = "project (\<lambda>s. NaN) (header_index spec_headers) idle_row"
  let ?d = "project (\<lambda>s. NaN) (header_index spec_headers) twenty_row"
  have gi: "gp ?i = Num (Fin 0)" and gd: "gp ?d = Num (Fin 20)"
    and pd: "pts ?d = Num (Fin 3)"
    by (simp_all only: project_sel idle_totals twenty_totals)
  have z: "is_zero (Fin 0)" and l: "js_lt (Fin 0) (Fin 20)" by (simp_all add: is_zero_def)
  from per_game_rates [OF refl, where S = "\<lambda>s. NaN" and idx = "header_index spec_headers"
      and r = idle_row and g = "Fin 0"] gi z
  have 1: "ppg ?i = Fin 0" "topg ?i = Fin 0" by blast+
  from per_game_rates [OF refl, where S = "\<lambda>s. NaN" and idx = "header_index spec_headers"
      and r = twenty_row and g = "Fin 20"] gd l
  have e: "ppg ?d = round1 (fdiv (ToNumber (\<lambda>s. NaN) (pts ?d)) (Fin 20))"
    and r: "rounded_1_decimal (fdiv (ToNumber (\<lambda>s. NaN) (pts ?d)) (Fin 20)) (ppg ?d)"
    by blast+
  from e have 2: "ppg ?d = Fin (3602879701896397 / 2 ^ 55)"
    by (simp only: pd ToNumber.simps twenty_rates)
  from r have 3: "rounded_1_decimal (Fin (5404319552844595 / 2 ^ 55))
      (Fin (3602879701896397 / 2 ^ 55))"
    by (simp only: 2 pd ToNumber.simps twenty_quotients)
  from gi z 1 gd l 2 3 twenty_quotients(1) show ?thesis by (simp only: simp_thms)
qed

text \<open>
  C7.  For the field-goal, free-throw and three-point percentage of every row: when the
  percentage cell of the source is present and not null, that value is used; otherwise the
  percentage is made divided by attempted, and \<open>0\<close> when attempted is \<open>0\<close> (or otherwise falsy);
  the stored value is the chosen one times \<open>100\<close>, rounded to one decimal: it is \<open>round1\<close> of
  the product, which is the product rounded in the sense of \<open>rounded_1_decimal\<close>.  A row with
  \<open>0\<close> field goals attempted and no \<open>FG_PCT\<close> column has the field-goal percentage \<open>0\<close>.  With
  \<open>860\<close> field goals made of \<open>1656\<close> the percentage is \<open>51.9\<close>, derived or from the cell \<open>0.519\<close>;
  the cell \<open>1.005\<close> gives \<open>100.5\<close>.
\<close>

theorem shooting_percentages:
  assumes "p = project S (header_index hs) r"
  shows
    "(cell r (header_index hs) ''FG_PCT'' \<noteq> Undefined \<and> cell r (header_index hs) ''FG_PCT'' \<noteq> Null \<longrightarrow>
        fgPct p = round1 (fmul (ToNumber S (cell r (header_index hs) ''FG_PCT'')) (Fin 100)) \<and>
        rounded_1_decimal (fmul (ToNumber S (cell r (header_index hs) ''FG_PCT'')) (Fin 100)) (fgPct p))
   \<and> (cell r (header_index hs) ''FG_PCT'' = Undefined \<or> cell r (header_index hs) ''FG_PCT'' = Null \<longrightarrow>
        fgPct p = round1 (fmul (if ToBoolean (fga p) then fdiv (ToNumber S (fgm p)) (ToNumber S (fga p))
                                else Fin 0) (Fin 100)) \<and>
        rounded_1_decimal (fmul (if ToBoolean (fga p) then fdiv (ToNumber S (fgm p)) (ToNumber S (fga p))
                                 else Fin 0) (Fin 100)) (fgPct p))
   \<and> (cell r (header_index hs) ''FT_PCT'' \<noteq> Undefined \<and> cell r (header_index hs) ''FT_PCT'' \<noteq> Null \<longrightarrow>
        ftPct p = round1 (fmul (ToNumber S (cell r (header_index hs) ''FT_PCT'')) (Fin 100)) \<and>
        rounded_1_decimal (fmul (ToNumber S (cell r (header_index hs) ''FT_PCT'')) (Fin 100)) (ftPct p))
   \<and> (cell r (header_index hs) ''FT_PCT'' = Undefined \<or> cell r (header_index hs) ''FT_PCT'' = Null \<longrightarrow>
        ftPct p = round1 (fmul (if ToBoolean (fta p) then fdiv (ToNumber S (ftm p)) (ToNumber S (fta p))
                                else Fin 0) (Fin 100)) \<and>
        rounded_1_decimal (fmul (if ToBoolean (fta p) then fdiv (ToNumber S (ftm p)) (ToNumber S (fta p))
                                 else Fin 0) (Fin 100)) (ftPct p))
   \<and> (cell r (header_index hs) ''FG3_PCT'' \<noteq> Undefined \<and> cell r (header_index hs) ''FG3_PCT'' \<noteq> Null \<longrightarrow>
        tpPct p = round1 (fmul (ToNumber S (cell r (header_index hs) ''FG3_PCT'')) (Fin 100)) \<and>
        rounded_1_decimal (fmul (ToNumber S (cell r (header_index hs) ''FG3_PCT'')) (Fin 100)) (tpPct p))
   \<and> (cell r (header_index hs) ''FG3_PCT'' = Undefined \<or> cell r (header_index hs) ''FG3_PCT'' = Null \<longrightarrow>
        tpPct p = round1 (fmul (if ToBoolean (fg3a p) then fdiv (ToNumber S (fg3m p)) (ToNumber S (fg3a p))
                                else Fin 0) (Fin 100)) \<and>
        rounded_1_decimal (fmul (if ToBoolean (fg3a p) then fdiv (ToNumber S (fg3m p)) (ToNumber S (fg3a p))
                                 else Fin 0) (Fin 100)) (tpPct p))
   \<and> (''FG_PCT'' \<notin> set hs \<and> fga p = Num (Fin 0) \<longrightarrow> fgPct p = Fin 0)
   \<and> fgPct (project S (header_index shot_headers) [Num (Fin 860), Num (Fin 1656), Null])
       = Fin (7304275645641523 / 2 ^ 47)
   \<and> fgPct (project S (header_index shot_headers)
         [Num (Fin 860), Num (Fin 1656), Num (Fin (4674736413210575 / 2 ^ 53))])
       = Fin (7304275645641523 / 2 ^ 47)
   \<and> fgPct (project S (header_index shot_headers)
         [Num (Fin 860), Num (Fin 1656), Num (Fin (1131529406376837 / 2 ^ 50))])
       = Fin (201 / 2)"
proof -
  have given: "c \<noteq> Undefined \<and> c \<noteq> Null \<longrightarrow> nullish c d = c" for c d
    by (cases c) simp_all
  have derived: "c = Undefined \<or> c = Null \<longrightarrow> nullish c d = d" for c d
    by auto
  have zero: "round1 (fmul (Fin 0) (Fin 100)) = Fin 0"
    by (simp add: num_eval)
  have general: "(cell r (header_index hs) ''FG_PCT'' \<noteq> Undefined \<and> cell r (header_index hs) ''FG_PCT'' \<noteq> Null \<longrightarrow>
        fgPct p = round1 (fmul (ToNumber S (cell r (header_index hs) ''FG_PCT'')) (Fin 100)))
   \<and> (cell r (header_index hs) ''FG_PCT'' = Undefined \<or> cell r (header_index hs) ''FG_PCT'' = Null \<longrightarrow>
        fgPct p = round1 (fmul (if ToBoolean (fga p) then fdiv (ToNumber S (fgm p)) (ToNumber S (fga p))
                                else Fin 0) (Fin 100)))
   \<and> (cell r (header_index hs) ''FT_PCT'' \<noteq> Undefined \<and> cell r (header_index hs) ''FT_PCT'' \<noteq> Null \<longrightarrow>
        ftPct p = round1 (fmul (ToNumber S (cell r (header_index hs) ''FT_PCT'')) (Fin 100)))
   \<and> (cell r (header_index hs) ''FT_PCT'' = Undefined \<or> cell r (header_index hs) ''FT_PCT'' = Null \<longrightarrow>
        ftPct p = round1 (fmul (if ToBoolean (fta p) then fdiv (ToNumber S (ftm p)) (ToNumber S (fta p))
                                else Fin 0) (Fin 100)))
   \<and> (cell r (header_index hs) ''FG3_PCT'' \<noteq> Undefined \<and> cell r (header_index hs) ''FG3_PCT'' \<noteq> Null \<longrightarrow>
        tpPct p = round1 (fmul (ToNumber S (cell r (header_index hs) ''FG3_PCT'')) (Fin 100)))
   \<and> (cell r (header_index hs) ''FG3_PCT'' = Undefined \<or> cell r (header_index hs) ''FG3_PCT'' = Null \<longrightarrow>
        tpPct p = round1 (fmul (if ToBoolean (fg3a p) then fdiv (ToNumber S (fg3m p)) (ToNumber S (fg3a p))
                                else Fin 0) (Fin 100)))
   \<and> (''FG_PCT'' \<notin> set hs \<and> fga p = Num (Fin 0) \<longrightarrow> fgPct p = Fin 0)"
    unfolding assms project_sel percent_def pct_def
    using given derived zero
    by (auto simp: cell_def header_index_None stat_def is_zero_def)
  have t: "ToBoolean (Num (Fin 1656))" by (simp add: is_zero_def)
  have c: "stat [Num (Fin 860), Num (Fin 1656), x] (header_index shot_headers) ''FGM'' = Num (Fin 860)"
    "stat [Num (Fin 860), Num (Fin 1656), x] (header_index shot_headers) ''FGA'' = Num (Fin 1656)"
    "cell [Num (Fin 860), Num (Fin 1656), x] (header_index shot_headers) ''FG_PCT'' = x" for x
    by (simp_all add: stat_def cell_def shot_index)
  have examples:
    "fgPct (project S (header_index shot_headers) [Num (Fin 860), Num (Fin 1656), Null])
       = Fin (7304275645641523 / 2 ^ 47)"
    "fgPct (project S (header_index shot_headers)
         [Num (Fin 860), Num (Fin 1656), Num (Fin (4674736413210575 / 2 ^ 53))])
       = Fin (7304275645641523 / 2 ^ 47)"
    "fgPct (project S (header_index shot_headers)
         [Num (Fin 860), Num (Fin 1656), Num (Fin (1131529406376837 / 2 ^ 50))])
       = Fin (201 / 2)"
    by (simp_all only: project_sel c pct_def percent_def nullish.simps t if_True
        ToNumber.simps percent_rounded)
  from general examples show ?thesis
    by (simp add: round1_rounded)
qed

text \<open>
  A row with an explicit percentage, a row with a null percentage cell, whose derived
  percentage \<open>51.93...\<close> is rounded to \<open>51.9\<close>, and the worked example, which has no percentage
  column and no attempts.
\<close>

theorem shooting_percentages_witness:
  "cell [Num (Fin 3), Num (Fin 8), Num (Fin (3 / 8))] (header_index shot_headers) ''FG_PCT''
     = Num (Fin (3 / 8))
   \<and> fgPct (project (\<lambda>s. NaN) (header_index shot_headers)
        [Num (Fin 3), Num (Fin 8), Num (Fin (3 / 8))]) = Fin (75 / 2)
   \<and> cell [Num (Fin 860), Num (Fin 1656), Null] (header_index shot_headers) ''FG_PCT'' = Null
   \<and> fmul (fdiv (Fin 860) (Fin 1656)) (Fin 100) = Fin (1827207729250937 / 2 ^ 45)
   \<and> fgPct (project (\<lambda>s. NaN) (header_index shot_headers)
        [Num (Fin 860), Num (Fin 1656), Null]) = Fin (7304275645641523 / 2 ^ 47)
   \<and> rounded_1_decimal (Fin (1827207729250937 / 2 ^ 45)) (Fin (7304275645641523 / 2 ^ 47))
   \<and> ''FG_PCT'' \<notin> set spec_headers
   \<and> fga (project (\<lambda>s. NaN) (header_index spec_headers) spec_row) = Num (Fin 0)
   \<and> fgPct (project (\<lambda>s. NaN) (header_index spec_headers) spec_row) = Fin 0"
proof -
  let ?g = "project (\<lambda>s. NaN) (header_index shot_headers)
        [Num (Fin 3), Num (Fin 8), Num (Fin (3 / 8))]"
  let ?n = "project (\<lambda>s. NaN) (header_index shot_headers)
        [Num (Fin 860), Num (Fin 1656), Null]"
  let ?w = "project (\<lambda>s. NaN) (header_index spec_headers) spec_row"
  have a: "cell [Num (Fin 3), Num (Fin 8), Num (Fin (3 / 8))] (header_index shot_headers) ''FG_PCT''
     = Num (Fin (3 / 8))"
    and b: "cell [Num (Fin 860), Num (Fin 1656), Null] (header_index shot_headers) ''FG_PCT'' = Null"
    by (simp_all add: cell_def shot_index)
  have c: "fga ?n = Num (Fin 1656)" "fgm ?n = Num (Fin 860)"
    by (simp_all add: project_sel stat_def cell_def shot_index)
  have t: "ToBoolean (Num (Fin 1656))" by (simp add: is_zero_def)
  have d: "''FG_PCT'' \<notin> set spec_headers" by (simp add: spec_headers_def)
  have e: "fga ?w = Num (Fin 0)"
    using header_index_None [of "''FGA''" spec_headers]
    by (simp add: project_sel stat_def cell_def spec_headers_def)
  have m: "fmul (fdiv (Fin 860) (Fin 1656)) (Fin 100) = Fin (1827207729250937 / 2 ^ 45)"
    by (simp only: percent_rounded)
  from shooting_percentages [OF refl, where S = "\<lambda>s. NaN" and hs = shot_headers
      and r = "[Num (Fin 3), Num (Fin 8), Num (Fin (3 / 8))]"] a
  have "fgPct ?g = round1 (fmul (ToNumber (\<lambda>s. NaN) (Num (Fin (3 / 8)))) (Fin 100))"
    by simp
  then have 1: "fgPct ?g = Fin (75 / 2)"
    by (simp only: ToNumber.simps percent_eval)
  from shooting_percentages [OF refl, where S = "\<lambda>s. NaN" and hs = shot_headers
      and r = "[Num (Fin 860), Num (Fin 1656), Null]"] b
  have "fgPct ?n = round1 (fmul (if ToBoolean (fga ?n)
            then fdiv (ToNumber (\<lambda>s. NaN) (fgm ?n)) (ToNumber (\<lambda>s. NaN) (fga ?n))
            else Fin 0) (Fin 100))"
    and "rounded_1_decimal (fmul (if ToBoolean (fga ?n)
            then fdiv (ToNumber (\<lambda>s. NaN) (fgm ?n)) (ToNumber (\<lambda>s. NaN) (fga ?n))
            else Fin 0) (Fin 100)) (fgPct ?n)"
    by blast+
  then have 2: "fgPct ?n = round1 (Fin (1827207729250937 / 2 ^ 45))"
    and 3: "rounded_1_decimal (Fin (1827207729250937 / 2 ^ 45)) (fgPct ?n)"
    by (simp_all only: c t if_True ToNumber.simps m)
  from 2 have 4: "fgPct ?n = Fin (7304275645641523 / 2 ^ 47)"
    by (simp only: percent_rounded)
  from 3 have 5: "rounded_1_decimal (Fin (1827207729250937 / 2 ^ 45))
      (Fin (7304275645641523 / 2 ^ 47))"
    by (simp only: 4)
  from shooting_percentages [OF refl, where S = "\<lambda>s. NaN" and hs = spec_headers
      and r = spec_row] d e
  have 6: "fgPct ?w = Fin 0"
    by blast
  from a 1 b m 4 5 d e 6 show ?thesis by (simp only: simp_thms)
qed

text \<open>
  C8.  Two rows of a table with the same points, rebounds, assists, steals, blocks and
  turnovers have the same composite score, whatever their games played are.
\<close>

theorem ept_totals_only:
  assumes "p = project S idx r" "p' = project S idx r'"
    and "pts p = pts p'" "reb p = reb p'" "ast p = ast p'"
    and "stl p = stl p'" "blk p = blk p'" "tov p = tov p'"
  shows "ept p = ept p'"
  using assms by (simp add: project_sel)

text \<open>The worked example played in two games and in five.\<close>

theorem ept_totals_only_witness:
  "gp (project (\<lambda>s. NaN) (header_index spec_headers) spec_row) = Num (Fin 2)
   \<and> gp (project (\<lambda>s. NaN) (header_index spec_headers) bench_row) = Num (Fin 5)
   \<and> ept (project (\<lambda>s. NaN) (header_index spec_headers) spec_row)
     = ept (project (\<lambda>s. NaN) (header_index spec_headers) bench_row)"
  using ept_totals_only [OF refl refl, where S = "\<lambda>s. NaN"
      and idx = "header_index spec_headers" and r = spec_row and r' = bench_row]
  by (simp add: project_sel spec_totals bench_totals)

text \<open>
  C9 (amended).  For every header name other than \<open>__proto__\<close> that occurs in the header
  sequence, the header index maps the name to the position of its last occurrence, and a
  row is read for that name at that position (\<open>cell\<close>, through which \<open>project\<close> reads every
  field).
\<close>

theorem header_index_last_wins:
  assumes "h \<in> set hs" "h \<noteq> ''__proto__''"
  shows "\<exists>i. header_index hs h = Some i \<and> i < length hs \<and> hs ! i = h \<and>
             (\<forall>j. i < j \<and> j < length hs \<longrightarrow> hs ! j \<noteq> h) \<and>
             cell r (header_index hs) h = (if i < length r then r ! i else Undefined)"
proof -
  from header_index_last [OF assms] obtain i where i: "header_index hs h = Some i"
    "i < length hs" "hs ! i = h" "\<forall>j. i < j \<and> j < length hs \<longrightarrow> hs ! j \<noteq> h"
    by blast
  then have "cell r (header_index hs) h = (if i < length r then r ! i else Undefined)"
    by (simp add: cell_def)
  with i show ?thesis by blast
qed

text \<open>The headers \<open>PTS, GP, PTS\<close>: the points are read from the third column.\<close>

theorem header_index_last_wins_witness:
  "''PTS'' \<in> set [''PTS'', ''GP'', ''PTS'']
   \<and> header_index [''PTS'', ''GP'', ''PTS''] ''PTS'' = Some 2
   \<and> cell [Num (Fin 10), Num (Fin 2), Num (Fin 30)] (header_index [''PTS'', ''GP'', ''PTS'']) ''PTS''
     = Num (Fin 30)"
proof -
  have m: "''PTS'' \<in> set [''PTS'', ''GP'', ''PTS'']" and n: "''PTS'' \<noteq> ''__proto__''"
    by simp_all
  have ev: "header_index [''PTS'', ''GP'', ''PTS''] ''PTS'' = Some 2"
    by (simp add: header_index_def assign_def enumerate_eq_zip upt_rec)
  from header_index_last_wins [OF m n, where r = "[Num (Fin 10), Num (Fin 2), Num (Fin 30)]"]
  obtain i where i: "header_index [''PTS'', ''GP'', ''PTS''] ''PTS'' = Some i"
    "i < length [''PTS'', ''GP'', ''PTS'']"
    "\<forall>j. i < j \<and> j < length [''PTS'', ''GP'', ''PTS''] \<longrightarrow> [''PTS'', ''GP'', ''PTS''] ! j \<noteq> ''PTS''"
    "cell [Num (Fin 10), Num (Fin 2), Num (Fin 30)] (header_index [''PTS'', ''GP'', ''PTS'']) ''PTS''
       = (if i < length [Num (Fin 10), Num (Fin 2), Num (Fin 30)]
          then [Num (Fin 10), Num (Fin 2), Num (Fin 30)] ! i else Undefined)"
    by blast
  from i(1) ev have "i = 2" by simp
  with i m show ?thesis by simp
qed

text \<open>
  The claim as stated fails for the name \<open>__proto__\<close>: the assignment to it creates no
  property, so the index has no position for it, however often it occurs.
\<close>

theorem header_index_last_wins_counterexample:
  "header_index [''__proto__'', ''__proto__''] ''__proto__'' = None
   \<and> header_index [''__proto__'', ''__proto__''] ''__proto__'' \<noteq> Some 1"
  by (simp add: header_index_proto)

text \<open>
  C10 (amended).  For every table none of whose projected composite scores is \<open>NaN\<close>, the
  returned records of equal \<open>ept\<close> stand in the order of their source rows: for every
  score, the returned records with that score are an initial part of the projected rows
  with that score, in input order.
\<close>

theorem ranking_stable:
  assumes "es_sort (array_sort E)"
    and "resultSet data = Some rs" "headers rs = Some hs" "rowSet rs = Some rows"
    and "\<forall>r \<in> set rows. ept (project (StringToNumber E) (header_index hs) r) \<noteq> NaN"
  shows "\<exists>res. getSeasonStats E now stamp data = Inr res \<and>
               (\<forall>v. prefix (filter (\<lambda>p. js_eq (ept p) v) (players res))
                           (filter (\<lambda>p. js_eq (ept p) v)
                              (map (project (StringToNumber E) (header_index hs)) rows)))"
proof -
  let ?ps = "map (project (StringToNumber E) (header_index hs)) rows"
  note r = ranked_by_stable_sort [OF assms]
  have "prefix (filter (\<lambda>p. js_eq (ept p) v) (take 25 (stable_sort compare_ept ?ps)))
               (filter (\<lambda>p. js_eq (ept p) v) ?ps)" for v
    using prefix_filter_take [of "\<lambda>p. js_eq (ept p) v" 25 "stable_sort compare_ept ?ps"]
    by (simp only: filter_stable_sort_ept [OF r(2)])
  then show ?thesis by (simp add: r(1))
qed

text \<open>The table of three rows: the two records with the score \<open>6\<close> keep their order.\<close>

theorem ranking_stable_witness:
  "es_sort (array_sort reference_engine)
   \<and> map (\<lambda>r. ept (entry r)) tie_rows = [Fin 6, Fin 9, Fin 6]
   \<and> (\<exists>res. getSeasonStats reference_engine sample_clock sample_stamp
               (table short_headers tie_rows) = Inr res \<and>
             (\<forall>v. prefix (filter (\<lambda>p. js_eq (ept p) v) (players res))
                         (filter (\<lambda>p. js_eq (ept p) v) (map entry tie_rows))))"
proof -
  from ranking_stable [OF es_sort_reference _ _ _ tie_numbers,
      where data = "table short_headers tie_rows"
        and rs = "\<lparr>headers = Some short_headers, rowSet = Some tie_rows\<rparr>"
        and now = sample_clock and stamp = sample_stamp]
  have "\<exists>res. getSeasonStats reference_engine sample_clock sample_stamp
               (table short_headers tie_rows) = Inr res \<and>
             (\<forall>v. prefix (filter (\<lambda>p. js_eq (ept p) v) (players res))
                         (filter (\<lambda>p. js_eq (ept p) v) (map entry tie_rows)))"
    by (simp add: table_def reference_engine_def entry_eq)
  moreover have "map (\<lambda>r. ept (entry r)) tie_rows = [Fin 6, Fin 9, Fin 6]"
    by (simp add: tie_rows_def entry_points_ept)
  ultimately show ?thesis using es_sort_reference by blast
qed

text \<open>
  The claim as stated fails on a table with scores that are \<open>NaN\<close>, where the order is the
  engine's.  On the seven rows with the scores \<open>NaN, NaN, 3, NaN, 6, 9, 6\<close> the sort of V8
  takes the first five rows as a run, inserts \<open>F\<close> (score \<open>9\<close>) before \<open>C\<close> (score \<open>3\<close>), and then
  inserts \<open>G\<close> (score \<open>6\<close>) after \<open>F\<close>: the binary search compares \<open>G\<close> with \<open>C\<close>, \<open>B\<close> and \<open>F\<close> and
  never with \<open>E\<close> (score \<open>6\<close>), which ends up behind \<open>G\<close> although its row came first.
\<close>

theorem ranking_stable_counterexample:
  "es_sort (array_sort v8_engine)
   \<and> (case getSeasonStats v8_engine sample_clock sample_stamp
             (table short_headers unstable_rows) of
         Inl e \<Rightarrow> False
       | Inr res \<Rightarrow>
           map name (players res)
             = [Str ''A'', Str ''B'', Str ''F'', Str ''G'', Str ''C'', Str ''D'', Str ''E''] \<and>
           map ept (players res) = [NaN, NaN, Fin 9, Fin 6, Fin 3, NaN, Fin 6] \<and>
           map name (filter (\<lambda>p. js_eq (ept p) (Fin 6)) (map entry unstable_rows))
             = [Str ''E'', Str ''G''] \<and>
           \<not> prefix (filter (\<lambda>p. js_eq (ept p) (Fin 6)) (players res))
                    (filter (\<lambda>p. js_eq (ept p) (Fin 6)) (map entry unstable_rows)))"
proof -
  have f: "filter (\<lambda>p. js_eq (ept p) (Fin 6)) (map entry unstable_rows)
     = [entry (points_row ''E'' 4), entry (points_row ''G'' 4)]"
    by (simp add: unstable_rows_def entry_overflow entry_points_ept js_eq_def)
  have n: "entry (points_row ''G'' 4) \<noteq> entry (points_row ''E'' 4)"
    by (rule entry_points_neq) simp
  show ?thesis
    unfolding stats_v8 unstable_sorted f
    using n
    by (simp add: es_sort_v8_engine entry_overflow entry_points_ept entry_points_name
        js_eq_def)
qed

end
